theory Spec2Isabelle
  imports Complex_Main "HOL-Library.AList" "HOL-Library.Char_ord"
    "HOL-Library.List_Lexorder" "HOL-Library.Product_Lexorder"
begin

section \<open>Strings, names and paths\<close>

text \<open>
  A Python \<open>str\<close> is modelled as a \<open>string\<close> of bytes (its UTF-8 encoding); the
  byte-wise lexicographic order of \<open>List_Lexorder\<close> over \<open>Char_ord\<close> is the code-point
  order Python compares strings by. A \<open>pathlib\<close> path is the list of its components
  (\<open>Path.parts\<close> without the root \<open>/\<close>); \<open>str(path)\<close> is the components joined by
  \<open>/\<close>. File contents are byte lists, \<open>st_size\<close> is their length.
\<close>

type_synonym bytes = "char list"
type_synonym path = "string list"

text \<open>\<open>name.startswith('.')\<close>\<close>

definition hidden :: "string \<Rightarrow> bool" where
  "hidden name = (case name of [] \<Rightarrow> False | c # cs \<Rightarrow> c = CHR ''.'')"

text \<open>\<open>str.lower()\<close> on the ASCII letters; other bytes are left as they are.\<close>

definition lower_char :: "char \<Rightarrow> char" where
  "lower_char c =
     (case map_of (zip ''ABCDEFGHIJKLMNOPQRSTUVWXYZ'' ''abcdefghijklmnopqrstuvwxyz'') c of
        Some l \<Rightarrow> l
      | None \<Rightarrow> c)"

definition lower :: "string \<Rightarrow> string" where
  "lower s = map lower_char s"

text \<open>\<open>name.rfind('.')\<close>, with \<open>None\<close> for Python's \<open>-1\<close>.\<close>

fun rfind_dot :: "string \<Rightarrow> nat option" where
  "rfind_dot [] = None"
| "rfind_dot (c # cs) =
     (case rfind_dot cs of
        Some i \<Rightarrow> Some (Suc i)
      | None \<Rightarrow> if c = CHR ''.'' then Some 0 else None)"

text \<open>
  \<open>PurePath.suffix\<close> of a final component: \<open>name[i:]\<close> for \<open>i = name.rfind('.')\<close>
  when \<open>0 < i < len(name) - 1\<close>, else the empty string.
\<close>

definition path_suffix :: "string \<Rightarrow> string" where
  "path_suffix name =
     (case rfind_dot name of
        None \<Rightarrow> []
      | Some i \<Rightarrow> if 0 < i \<and> Suc i < length name then drop i name else [])"

section \<open>Classification by extension\<close>

text \<open>
  The class constant \<open>FILE_TYPES\<close>. A Python dict iterates in insertion order, so the
  table is an association list in the order of the literal.
\<close>

definition FILE_TYPES :: "(string \<times> string list) list" where
  "FILE_TYPES =
     [(''python'', [''.py'']),
      (''javascript'', [''.js'', ''.ts'', ''.jsx'', ''.tsx'']),
      (''web'', [''.html'', ''.css'', ''.scss'', ''.less'']),
      (''config'', [''.json'', ''.yaml'', ''.yml'', ''.toml'', ''.ini'', ''.cfg'']),
      (''markdown'', [''.md'', ''.rst'', ''.txt'']),
      (''data'', [''.csv'', ''.json'', ''.xml'', ''.sql'']),
      (''image'', [''.png'', ''.jpg'', ''.jpeg'', ''.gif'', ''.svg'', ''.ico'']),
      (''archive'', [''.zip'', ''.tar'', ''.gz'', ''.rar'', ''.7z''])]"

text \<open>The loop of \<open>_get_file_type\<close> over \<open>FILE_TYPES.items()\<close>.\<close>

fun file_type_loop :: "(string \<times> string list) list \<Rightarrow> string \<Rightarrow> string" where
  "file_type_loop [] suffix = ''other''"
| "file_type_loop ((file_type, extensions) # rest) suffix =
     (if suffix \<in> set extensions then file_type else file_type_loop rest suffix)"

definition get_file_type :: "string \<Rightarrow> string" where
  "get_file_type suffix = file_type_loop FILE_TYPES (lower suffix)"

section \<open>Errors\<close>

text \<open>
  The exceptions that leave the methods. \<open>OSError_ENAMETOOLONG\<close> is the plain \<open>OSError\<close>
  with \<open>errno\<close> 36 that Linux gives for a name it refuses to look up.
\<close>

datatype error =
    ValueError
  | OverflowError
  | FileNotFoundError
  | FileExistsError
  | IsADirectoryError
  | NotADirectoryError
  | PermissionError
  | OSError_ENAMETOOLONG

section \<open>Formatting a size\<close>

text \<open>
  \<open>_format_size\<close> starts with a Python \<open>int\<close> and, after the first \<open>size /= 1024\<close>,
  goes on with a \<open>float\<close>. A float is modelled by the real number the double stands
  for.
\<close>

datatype number = PyInt nat | PyFloat real

definition value_of :: "number \<Rightarrow> real" where
  "value_of sz = (case sz of PyInt n \<Rightarrow> real n | PyFloat x \<Rightarrow> x)"

text \<open>\<open>n.bit_length()\<close>\<close>

fun bit_length :: "nat \<Rightarrow> nat" where
  "bit_length n = (if n = 0 then 0 else Suc (bit_length (n div 2)))"

declare bit_length.simps [simp del]

text \<open>
  The integer nearest to \<open>n\<close> that has at most 53 significant bits, ties to the even
  mantissa: the rounding of IEEE 754 doubles.
\<close>

definition round53 :: "nat \<Rightarrow> nat" where
  "round53 n =
     (let b = bit_length n in
      if b \<le> 53 then n
      else
        let s = b - 53; q = n div 2 ^ s; r = n mod 2 ^ s; half = 2 ^ (s - 1)
        in (if r < half then q
            else if half < r then q + 1
            else if even q then q else q + 1) * 2 ^ s)"

text \<open>
  \<open>size / 1024\<close>. On an \<open>int\<close> the true division of CPython returns the double nearest
  to the exact quotient and raises \<open>OverflowError\<close> when that is not below \<open>2 ^ 1024\<close>;
  as 1024 is a power of two, the quotient is rounded as the integer is. On a float
  of 1024 or more, which is what the loop divides, the division only lowers the
  exponent and is exact.
\<close>

definition div_1024 :: "number \<Rightarrow> error + real" where
  "div_1024 sz =
     (case sz of
        PyInt n \<Rightarrow>
          if 2 ^ 1034 \<le> round53 n then Inl OverflowError else Inr (real (round53 n) / 1024)
      | PyFloat x \<Rightarrow> Inr (x / 1024))"

fun digits :: "nat \<Rightarrow> string" where
  "digits n =
     (if n < 10 then [''0123456789'' ! n]
      else digits (n div 10) @ [''0123456789'' ! (n mod 10)])"

declare digits.simps [simp del]

text \<open>
  The number of tenths in \<open>f"{x:.1f}"\<close> for \<open>x \<ge> 0\<close>: the exact value of the double is
  rounded to one decimal, ties to the even digit.
\<close>

definition round_tenths :: "real \<Rightarrow> nat" where
  "round_tenths x =
     (let t = x * 10; f = \<lfloor>t\<rfloor>; r = t - of_int f
      in nat (if r < 1 / 2 then f
              else if 1 / 2 < r then f + 1
              else if even f then f else f + 1))"

definition format_1f :: "real \<Rightarrow> string" where
  "format_1f x =
     (let q = round_tenths x in digits (q div 10) @ ''.'' @ digits (q mod 10))"

text \<open>The loop of \<open>_format_size\<close> over the units, and the \<open>return\<close> after it.\<close>

fun format_size_loop :: "string list \<Rightarrow> number \<Rightarrow> error + string" where
  "format_size_loop [] sz = Inr (format_1f (value_of sz) @ '' TB'')"
| "format_size_loop (unit # units) sz =
     (if value_of sz < 1024 then Inr (format_1f (value_of sz) @ '' '' @ unit)
      else (case div_1024 sz of
              Inl e \<Rightarrow> Inl e
            | Inr x \<Rightarrow> format_size_loop units (PyFloat x)))"

definition format_size :: "nat \<Rightarrow> error + string" where
  "format_size sz = format_size_loop [''B'', ''KB'', ''MB'', ''GB''] (PyInt sz)"

text \<open>
  What the printed number has to be, said without the functions above: \<open>q\<close> tenths are
  nearest to \<open>x\<close>, even on a tie, and a digit string is read back by \<open>decimal\<close>.
\<close>

definition nearest_tenths :: "real \<Rightarrow> nat \<Rightarrow> bool" where
  "nearest_tenths x q =
     (\<bar>real q - x * 10\<bar> < 1 / 2 \<or> \<bar>real q - x * 10\<bar> = 1 / 2 \<and> even q)"

definition digit_val :: "char \<Rightarrow> nat" where
  "digit_val c = length (takeWhile (\<lambda>d. d \<noteq> c) ''0123456789'')"

definition decimal :: "string \<Rightarrow> nat" where
  "decimal s = foldl (\<lambda>a c. 10 * a + digit_val c) 0 s"

section \<open>The file system\<close>

text \<open>
  The file system is a tree of regular files and directories (no symbolic links, no
  devices). A directory holds its entries as an association list, in the order in which
  the operating system lists them (\<open>iterdir\<close>, \<open>os.scandir\<close>).
\<close>

datatype node = File bytes | Dir "(string \<times> node) list"

definition is_dir :: "node \<Rightarrow> bool" where
  "is_dir n = (case n of Dir cs \<Rightarrow> True | File bs \<Rightarrow> False)"

definition is_file :: "node \<Rightarrow> bool" where
  "is_file n = (case n of File bs \<Rightarrow> True | Dir cs \<Rightarrow> False)"

text \<open>What a path denotes below a node; \<open>None\<close> when nothing exists there.\<close>

fun lookup :: "node \<Rightarrow> path \<Rightarrow> node option" where
  "lookup n [] = Some n"
| "lookup (File bs) (x # p) = None"
| "lookup (Dir cs) (x # p) =
     (case map_of cs x of None \<Rightarrow> None | Some c \<Rightarrow> lookup c p)"

text \<open>
  A legal entry name is not empty, is neither \<open>.\<close> nor \<open>..\<close> and holds no \<open>/\<close>; a
  directory of a real file system has no two entries of one name.
\<close>

definition valid_name :: "string \<Rightarrow> bool" where
  "valid_name x = (x \<noteq> [] \<and> x \<noteq> ''.'' \<and> x \<noteq> ''..'' \<and> CHR ''/'' \<notin> set x)"

fun wf :: "node \<Rightarrow> bool" where
  "wf (File bs) = True"
| "wf (Dir cs) =
     (distinct (map fst cs) \<and> (\<forall>e \<in> set cs. valid_name (fst e) \<and> wf (snd e)))"

text \<open>
  \<open>directory.rglob('*')\<close>: every entry below the directory, as its path relative to the
  directory, paired with the node found there. \<open>pathlib\<close> walks the directories in
  preorder and lists all entries of each one, hidden ones included, before it descends;
  on a path that is not a directory the walk yields nothing.
\<close>

fun rglob :: "node \<Rightarrow> (path \<times> node) list" where
  "rglob (File bs) = []"
| "rglob (Dir cs) =
     map (\<lambda>e. ([fst e], snd e)) cs @
     concat (map (\<lambda>e. map (\<lambda>r. (fst e # fst r, snd r)) (rglob (snd e))) cs)"

section \<open>The project manager\<close>

text \<open>
  An instance of \<open>ProjectManager\<close> holds the resolved root. Every method takes the file
  system it works on; the methods that write return the file system they leave behind.
\<close>

record project_manager =
  project_path :: path













subsection \<open>scan_project\<close>

record stats =
  total_files :: nat
  total_dirs :: nat
  total_size :: nat
  by_type :: "string \<rightharpoonup> nat"
  by_extension :: "string \<rightharpoonup> nat"
  max_depth :: nat
  empty_dirs :: "path list"
  large_files :: "(path \<times> nat) list"

definition stats0 :: stats where
  "stats0 =
     \<lparr>total_files = 0, total_dirs = 0, total_size = 0, by_type = Map.empty,
      by_extension = Map.empty, max_depth = 0, empty_dirs = [], large_files = []\<rparr>"

text \<open>\<open>d[k] += 1\<close> on a \<open>defaultdict(int)\<close>\<close>

definition incr :: "(string \<rightharpoonup> nat) \<Rightarrow> string \<Rightarrow> (string \<rightharpoonup> nat)" where
  "incr d k = d(k \<mapsto> (case d k of None \<Rightarrow> 1 | Some c \<Rightarrow> c + 1))"

text \<open>\<open>path.name\<close>: the last component, empty for the root.\<close>

definition name_of :: "path \<Rightarrow> string" where
  "name_of p = (if p = [] then [] else last p)"

text \<open>
  One round of the loop of \<open>scan_project\<close> over \<open>rglob('*')\<close>; \<open>rel\<close> is
  \<open>path.relative_to(self.project_path).parts\<close> and \<open>limit\<close> the argument \<open>max_depth\<close>.
\<close>

definition scan_step :: "int \<Rightarrow> stats \<Rightarrow> path \<times> node \<Rightarrow> stats" where
  "scan_step limit st e =
     (let rel = fst e in
      if list_ex hidden rel then st
      else
        let depth = length rel in
        if int depth > limit then st
        else
          let st1 = st\<lparr>max_depth := max (max_depth st) depth\<rparr> in
          (case snd e of
             File bs \<Rightarrow>
               let sz = length bs;
                   suffix = lower (path_suffix (name_of rel));
                   file_type = get_file_type suffix;
                   st2 = st1\<lparr>total_files := total_files st1 + 1,
                             total_size := total_size st1 + sz,
                             by_extension := incr (by_extension st1) suffix,
                             by_type := incr (by_type st1) file_type\<rparr>
               in if sz > 1024 * 1024
                  then st2\<lparr>large_files := large_files st2 @ [(rel, sz)]\<rparr>
                  else st2
           | Dir cs \<Rightarrow>
               let st2 = st1\<lparr>total_dirs := total_dirs st1 + 1\<rparr>
               in if cs = []
                  then st2\<lparr>empty_dirs := empty_dirs st2 @ [rel]\<rparr>
                  else st2))"

text \<open>\<open>self.project_path.rglob('*')\<close> on the file system \<open>fs\<close>.\<close>

definition project_rglob :: "node \<Rightarrow> project_manager \<Rightarrow> (path \<times> node) list" where
  "project_rglob fs self =
     (case lookup fs (project_path self) of None \<Rightarrow> [] | Some n \<Rightarrow> rglob n)"

definition scan_project :: "node \<Rightarrow> project_manager \<Rightarrow> int \<Rightarrow> stats" where
  "scan_project fs self limit = foldl (scan_step limit) stats0 (project_rglob fs self)"

text \<open>
  The guards of the loop as one predicate on the relative path: no component is hidden
  and the depth is within the limit.
\<close>

definition visited :: "int \<Rightarrow> path \<Rightarrow> bool" where
  "visited limit rel = (\<not> list_ex hidden rel \<and> int (length rel) \<le> limit)"

text \<open>\<open>path.stat().st_size\<close> of a regular file.\<close>

definition size_of :: "node \<Rightarrow> nat" where
  "size_of n = (case n of File bs \<Rightarrow> length bs | Dir cs \<Rightarrow> 0)"

text \<open>The category the scan files an entry under, and the count a dict holds for a key.\<close>

definition type_of_entry :: "path \<Rightarrow> string" where
  "type_of_entry rel = get_file_type (lower (path_suffix (name_of rel)))"

definition opt_count :: "nat option \<Rightarrow> nat" where
  "opt_count v = (case v of None \<Rightarrow> 0 | Some k \<Rightarrow> k)"

subsection \<open>Reading and writing the file system\<close>

text \<open>
  The errors are the ones Linux reports: a path through a regular file is
  \<open>NotADirectoryError\<close>, a missing component \<open>FileNotFoundError\<close>.
\<close>

fun stat :: "node \<Rightarrow> path \<Rightarrow> error + node" where
  "stat n [] = Inr n"
| "stat (File bs) (x # p) = Inl NotADirectoryError"
| "stat (Dir cs) (x # p) =
     (case map_of cs x of None \<Rightarrow> Inl FileNotFoundError | Some c \<Rightarrow> stat c p)"

text \<open>\<open>path.read_bytes()\<close>\<close>

definition read_bytes :: "node \<Rightarrow> path \<Rightarrow> error + bytes" where
  "read_bytes fs p =
     (case stat fs p of
        Inl e \<Rightarrow> Inl e
      | Inr (Dir cs) \<Rightarrow> Inl IsADirectoryError
      | Inr (File bs) \<Rightarrow> Inr bs)"

text \<open>
  \<open>path.write_bytes(data)\<close>: creates the file or replaces its content; the directory
  it lies in must exist. A new entry goes to the end of the listing.
\<close>

fun write_bytes :: "node \<Rightarrow> path \<Rightarrow> bytes \<Rightarrow> error + node" where
  "write_bytes n [] data = Inl IsADirectoryError"
| "write_bytes (File bs) (x # p) data = Inl NotADirectoryError"
| "write_bytes (Dir cs) [x] data =
     (case map_of cs x of
        Some (Dir ds) \<Rightarrow> Inl IsADirectoryError
      | _ \<Rightarrow> Inr (Dir (AList.update x (File data) cs)))"
| "write_bytes (Dir cs) (x # y # p) data =
     (case map_of cs x of
        None \<Rightarrow> Inl FileNotFoundError
      | Some c \<Rightarrow>
          (case write_bytes c (y # p) data of
             Inl e \<Rightarrow> Inl e
           | Inr c' \<Rightarrow> Inr (Dir (AList.update x c' cs))))"

text \<open>\<open>path.unlink()\<close>: removes a regular file; on a directory Linux answers \<open>EISDIR\<close>.\<close>

fun unlink :: "node \<Rightarrow> path \<Rightarrow> error + node" where
  "unlink n [] = Inl IsADirectoryError"
| "unlink (File bs) (x # p) = Inl NotADirectoryError"
| "unlink (Dir cs) [x] =
     (case map_of cs x of
        None \<Rightarrow> Inl FileNotFoundError
      | Some (Dir ds) \<Rightarrow> Inl IsADirectoryError
      | Some (File bs) \<Rightarrow> Inr (Dir (AList.delete x cs)))"
| "unlink (Dir cs) (x # y # p) =
     (case map_of cs x of
        None \<Rightarrow> Inl FileNotFoundError
      | Some c \<Rightarrow>
          (case unlink c (y # p) of
             Inl e \<Rightarrow> Inl e
           | Inr c' \<Rightarrow> Inr (Dir (AList.update x c' cs))))"

text \<open>
  \<open>path.mkdir(parents=True, exist_ok=True)\<close>: an existing directory is left as it is,
  missing ancestors are created, a regular file in the way is an error.
\<close>

fun new_dirs :: "path \<Rightarrow> node" where
  "new_dirs [] = Dir []"
| "new_dirs (x # p) = Dir [(x, new_dirs p)]"

fun mkdir_parents :: "node \<Rightarrow> path \<Rightarrow> error + node" where
  "mkdir_parents (Dir cs) [] = Inr (Dir cs)"
| "mkdir_parents (File bs) [] = Inl FileExistsError"
| "mkdir_parents (File bs) (x # p) = Inl NotADirectoryError"
| "mkdir_parents (Dir cs) (x # p) =
     (case map_of cs x of
        None \<Rightarrow> Inr (Dir (AList.update x (new_dirs p) cs))
      | Some c \<Rightarrow>
          (case mkdir_parents c p of
             Inl e \<Rightarrow> Inl e
           | Inr c' \<Rightarrow> Inr (Dir (AList.update x c' cs))))"

subsection \<open>find_files\<close>

text \<open>
  Matching one name against a pattern of one path segment, built from literal
  characters, \<open>*\<close> (any run of characters) and \<open>?\<close> (any one character), as
  \<open>fnmatch\<close> does on a POSIX system. Bracket classes, \<open>**\<close> and patterns of several
  segments go through other selectors of \<open>pathlib\<close> and are not covered.
\<close>

fun glob_match :: "string \<Rightarrow> string \<Rightarrow> bool" where
  "glob_match [] [] = True"
| "glob_match [] (x # xs) = False"
| "glob_match (c # p) [] = (c = CHR ''*'' \<and> glob_match p [])"
| "glob_match (c # p) (x # xs) =
     (if c = CHR ''*'' then glob_match p (x # xs) \<or> glob_match (c # p) xs
      else (c = CHR ''?'' \<or> c = x) \<and> glob_match p xs)"

text \<open>
  \<open>self.project_path.rglob(pattern)\<close>: the entries below the root, files and directories
  alike, whose name matches, as absolute paths. An empty pattern is refused.
\<close>

definition rglob_pattern :: "node \<Rightarrow> project_manager \<Rightarrow> string \<Rightarrow> error + path list" where
  "rglob_pattern fs self pattern =
     (if pattern = [] then Inl ValueError
      else Inr (map (\<lambda>e. project_path self @ fst e)
                 (filter (\<lambda>e. glob_match pattern (name_of (fst e))) (project_rglob fs self))))"

text \<open>The loop \<open>for ext in extensions: files.extend(rglob('*' + ext))\<close>.\<close>

fun extend_loop :: "node \<Rightarrow> project_manager \<Rightarrow> string list \<Rightarrow> path list \<Rightarrow> error + path list" where
  "extend_loop fs self [] files = Inr files"
| "extend_loop fs self (ext # extensions) files =
     (case rglob_pattern fs self (''*'' @ ext) of
        Inl e \<Rightarrow> Inl e
      | Inr found \<Rightarrow> extend_loop fs self extensions (files @ found))"

text \<open>
  \<open>find_files\<close>; an absent or empty \<open>file_type\<close> is false in Python and selects the
  search by pattern. Paths compare component by component.
\<close>

definition find_files ::
    "node \<Rightarrow> project_manager \<Rightarrow> string \<Rightarrow> string option \<Rightarrow> error + path list" where
  "find_files fs self pattern file_type =
     (if file_type \<noteq> None \<and> file_type \<noteq> Some []
      then
        let extensions = (case map_of FILE_TYPES (the file_type) of None \<Rightarrow> [] | Some exts \<Rightarrow> exts)
        in (case extend_loop fs self extensions [] of
              Inl e \<Rightarrow> Inl e
            | Inr files \<Rightarrow> Inr (sort (remdups files)))
      else
        (case rglob_pattern fs self pattern of
           Inl e \<Rightarrow> Inl e
         | Inr files \<Rightarrow> Inr (sort files)))"

subsection \<open>copy_files and delete_files\<close>

text \<open>
  A method that writes returns its outcome, the count or the exception that left it,
  together with the file system as it then is.
\<close>

fun copy_loop :: "node \<Rightarrow> path \<Rightarrow> path list \<Rightarrow> nat \<Rightarrow> (error + nat) \<times> node" where
  "copy_loop fs dest_path [] count = (Inr count, fs)"
| "copy_loop fs dest_path (file # files) count =
     (case read_bytes fs file of
        Inl e \<Rightarrow> (Inl e, fs)
      | Inr data \<Rightarrow>
          (case write_bytes fs (dest_path @ [name_of file]) data of
             Inl e \<Rightarrow> (Inl e, fs)
           | Inr fs' \<Rightarrow> copy_loop fs' dest_path files (count + 1)))"

text \<open>\<open>dest_path\<close> is the absolute location \<open>Path(dest_dir)\<close> denotes.\<close>

definition copy_files ::
    "node \<Rightarrow> project_manager \<Rightarrow> string \<Rightarrow> path \<Rightarrow> bool \<Rightarrow> (error + nat) \<times> node" where
  "copy_files fs self pattern dest_path create_dirs =
     (case (if create_dirs then mkdir_parents fs dest_path else Inr fs) of
        Inl e \<Rightarrow> (Inl e, fs)
      | Inr fs1 \<Rightarrow>
          (case find_files fs1 self pattern None of
             Inl e \<Rightarrow> (Inl e, fs1)
           | Inr files \<Rightarrow> copy_loop fs1 dest_path files 0))"

fun delete_loop :: "node \<Rightarrow> path list \<Rightarrow> nat \<Rightarrow> (error + nat) \<times> node" where
  "delete_loop fs [] count = (Inr count, fs)"
| "delete_loop fs (file # files) count =
     (case unlink fs file of
        Inl e \<Rightarrow> (Inl e, fs)
      | Inr fs' \<Rightarrow> delete_loop fs' files (count + 1))"

text \<open>
  \<open>response\<close> is the line \<open>input\<close> returns when confirmation is asked for; what the
  method prints is not part of the model.
\<close>

definition delete_files ::
    "node \<Rightarrow> project_manager \<Rightarrow> string \<Rightarrow> bool \<Rightarrow> string \<Rightarrow> (error + nat) \<times> node" where
  "delete_files fs self pattern confirm response =
     (case find_files fs self pattern None of
        Inl e \<Rightarrow> (Inl e, fs)
      | Inr files \<Rightarrow>
          if files = [] then (Inr 0, fs)
          else if confirm \<and> lower response \<noteq> ''y'' then (Inr 0, fs)
          else delete_loop fs files 0)"

subsection \<open>get_project_tree\<close>

text \<open>
  The connectors are the UTF-8 bytes of the box-drawing characters: U+2514, U+251C and
  U+2502, each branch followed by two U+2500 and a space.
\<close>

definition branch_last :: string where
  "branch_last =
     [CHR 0xE2, CHR 0x94, CHR 0x94, CHR 0xE2, CHR 0x94, CHR 0x80, CHR 0xE2, CHR 0x94, CHR 0x80,
      CHR '' '']"

definition branch_mid :: string where
  "branch_mid =
     [CHR 0xE2, CHR 0x94, CHR 0x9C, CHR 0xE2, CHR 0x94, CHR 0x80, CHR 0xE2, CHR 0x94, CHR 0x80,
      CHR '' '']"

definition bar_mid :: string where
  "bar_mid = [CHR 0xE2, CHR 0x94, CHR 0x82, CHR '' '', CHR '' '', CHR '' '']"

text \<open>\<open>sorted(path.iterdir(), key=lambda x: (not x.is_dir(), x.name))\<close>; the sort is stable.\<close>

definition sort_items :: "(string \<times> node) list \<Rightarrow> (string \<times> node) list" where
  "sort_items entries = sort_key (\<lambda>x. (\<not> is_dir (snd x), fst x)) entries"

lemma size_child: "e \<in> set cs \<Longrightarrow> snd e = Dir ds \<Longrightarrow> size (Dir ds) < size (Dir cs)"
proof (induction cs)
  case Nil
  then show ?case by simp
next
  case (Cons a cs)
  then show ?case by (cases a) auto
qed

text \<open>
  The lines of the rounds of a loop, up to the first round that raises.
\<close>

fun collect_lines :: "(error + string list) list \<Rightarrow> error + string list" where
  "collect_lines [] = Inr []"
| "collect_lines (r # rs) =
     (case r of
        Inl e \<Rightarrow> Inl e
      | Inr ls \<Rightarrow>
          (case collect_lines rs of
             Inl e \<Rightarrow> Inl e
           | Inr ms \<Rightarrow> Inr (ls @ ms)))"

text \<open>
  The nested helper \<open>_tree(path, depth, prefix)\<close>, returning the lines it appends;
  \<open>name\<close> is \<open>path.name\<close> and \<open>entries\<close> what \<open>path.iterdir()\<close> lists. The check for a
  hidden name is made on the directory whose entries are about to be listed, after the
  caller has appended the line of that directory; the entries themselves are not checked.
\<close>

function tree ::
    "int \<Rightarrow> string \<Rightarrow> (string \<times> node) list \<Rightarrow> nat \<Rightarrow> string \<Rightarrow> error + string list" where
  "tree limit name entries depth prefix =
     (if int depth > limit then Inr []
      else if hidden name then Inr []
      else
        let items = sort_items entries in
        collect_lines (map (\<lambda>(i, item).
            let is_last = (i = length items - 1);
                current_prefix = (if is_last then branch_last else branch_mid);
                next_prefix = (if is_last then ''    '' else bar_mid)
            in (case snd item of
                  Dir cs \<Rightarrow>
                    (case tree limit (fst item) cs (depth + 1) (prefix @ next_prefix) of
                       Inl e \<Rightarrow> Inl e
                     | Inr below \<Rightarrow> Inr ((prefix @ current_prefix @ fst item @ ''/'') # below))
                | File bs \<Rightarrow>
                    (case format_size (length bs) of
                       Inl e \<Rightarrow> Inl e
                     | Inr size_str \<Rightarrow>
                         Inr [prefix @ current_prefix @ fst item @ '' ('' @ size_str @ '')''])))
          (enumerate 0 items)))"
  by pat_completeness auto
termination
proof (relation "measure (\<lambda>(limit, name, entries, depth, prefix). size (Dir entries))", goal_cases)
  case 1
  show ?case by simp
next
  case (2 limit name entries depth prefix items ix i item is_last cur nxt cs)
  then have "(i, item) \<in> set (enumerate 0 (sort_items entries))"
    by simp
  then have "item \<in> set (sort_items entries)"
    by (auto simp: in_set_enumerate_eq)
  then have "item \<in> set entries"
    by (simp add: sort_items_def)
  with 2 show ?case using size_child [of item entries cs] by simp
qed

text \<open>\<open>'\n'.join(lines)\<close>\<close>

definition join_lines :: "string list \<Rightarrow> string" where
  "join_lines ls =
     (case ls of [] \<Rightarrow> [] | l # rest \<Rightarrow> l @ concat (map (\<lambda>x. CHR 0x0A # x) rest))"

text \<open>
  \<open>get_project_tree\<close>. On a root that is no directory \<open>iterdir\<close> raises, unless one of
  the two guards of \<open>_tree\<close> has returned before. The method's own parameter \<open>prefix\<close>
  is shadowed by the one of \<open>_tree\<close> and never read, so the model leaves it out.
\<close>

definition get_project_tree :: "node \<Rightarrow> project_manager \<Rightarrow> int \<Rightarrow> error + string" where
  "get_project_tree fs self limit =
     (let name = name_of (project_path self);
          first = name @ ''/''
      in if 0 > limit \<or> hidden name then Inr (join_lines [first])
         else (case stat fs (project_path self) of
                 Inl e \<Rightarrow> Inl e
               | Inr (File bs) \<Rightarrow> Inl NotADirectoryError
               | Inr (Dir cs) \<Rightarrow>
                   (case tree limit name cs 0 [] of
                      Inl e \<Rightarrow> Inl e
                    | Inr ls \<Rightarrow> Inr (join_lines (first # ls)))))"

subsection \<open>Auxiliary notions\<close>


text \<open>
  One round of the loop of \<open>copy_files\<close>: \<open>dest_file.write_bytes(file.read_bytes())\<close>
  with \<open>dest_file = dest_path / file.name\<close>.
\<close>

definition copy_one :: "node \<Rightarrow> path \<Rightarrow> path \<Rightarrow> error + node" where
  "copy_one fs dest_path file =
     (case read_bytes fs file of
        Inl e \<Rightarrow> Inl e
      | Inr data \<Rightarrow> write_bytes fs (dest_path @ [name_of file]) data)"

subsection \<open>A sample project\<close>

text \<open>
  A small project tree for evaluating the methods: two visible source files, a hidden
  directory, a directory holding only a hidden file, an empty directory, and two files
  on either side of the large-file threshold.
\<close>

definition demo_fs :: node where
  "demo_fs =
     Dir [(''proj'',
           Dir [(''main.py'', File ''print''),
                (''config.json'', File ''{}''),
                (''.git'', Dir [(''HEAD'', File ''ref'')]),
                (''src'', Dir [(''.keep'', File [])]),
                (''empty'', Dir []),
                (''large.bin'', File (replicate 1048577 (CHR ''x''))),
                (''edge.bin'', File (replicate 1048576 (CHR ''x'')))])]"

definition demo_pm :: project_manager where
  "demo_pm = \<lparr>project_path = [''proj'']\<rparr>"

text \<open>
  A project in which a directory matches the pattern \<open>*.tmp\<close> between two files, one in
  which two files share a base name, and one without such a clash, before the copy,
  after the creation of the destination and after the copy.
\<close>

definition batch_fs :: node where
  "batch_fs = Dir [(''proj'', Dir [(''a.tmp'', File ''a''), (''b.tmp'', Dir []), (''c.tmp'', File ''c'')])]"

definition batch_pm :: project_manager where
  "batch_pm = \<lparr>project_path = [''proj'']\<rparr>"

definition clash_fs :: node where
  "clash_fs = Dir [(''proj'', Dir [(''m.py'', File ''top''), (''pkg'', Dir [(''m.py'', File ''inner'')])])]"

definition clash_pm :: project_manager where
  "clash_pm = \<lparr>project_path = [''proj'']\<rparr>"

definition copy_fs :: node where
  "copy_fs = Dir [(''proj'', Dir [(''m.py'', File ''top''), (''pkg'', Dir [(''n.py'', File ''inner'')])])]"

definition copy_fs1 :: node where
  "copy_fs1 = Dir [(''proj'', Dir [(''m.py'', File ''top''), (''pkg'', Dir [(''n.py'', File ''inner'')])]),
                   (''out'', Dir [])]"

definition copy_fs2 :: node where
  "copy_fs2 = Dir [(''proj'', Dir [(''m.py'', File ''top''), (''pkg'', Dir [(''n.py'', File ''inner'')])]),
                   (''out'', Dir [(''m.py'', File ''top''), (''n.py'', File ''inner'')])]"

section \<open>Properties\<close>

subsection \<open>Paths and the walk\<close>

text \<open>
  On a well-formed tree the walk yields every path that exists below the directory,
  once, paired with what \<open>lookup\<close> finds there.
\<close>

lemma lookup_append:
  "lookup n (p @ q) = (case lookup n p of None \<Rightarrow> None | Some c \<Rightarrow> lookup c q)"
proof (induction p arbitrary: n)
  case Nil
  show ?case by simp
next
  case (Cons x p)
  show ?case
  proof (cases n)
    case (File bs)
    then show ?thesis by simp
  next
    case (Dir cs)
    then show ?thesis using Cons.IH by (simp split: option.splits)
  qed
qed

lemma wf_child: "wf (Dir cs) \<Longrightarrow> map_of cs x = Some c \<Longrightarrow> wf c"
  by (auto dest: map_of_SomeD)

lemma wf_lookup: "wf n \<Longrightarrow> lookup n p = Some c \<Longrightarrow> wf c"
proof (induction p arbitrary: n)
  case Nil
  then show ?case by simp
next
  case (Cons x p)
  then show ?case
    by (cases n) (auto split: option.splits dest: wf_child)
qed

lemma rglob_Nil_notin: "([], c) \<notin> set (rglob n)"
  by (cases n) auto

lemma rglob_Cons_iff:
  "(x # r, c) \<in> set (rglob (Dir cs)) \<longleftrightarrow>
     (r = [] \<and> (x, c) \<in> set cs) \<or> (\<exists>d. (x, d) \<in> set cs \<and> (r, c) \<in> set (rglob d))"
  by (auto simp: image_iff) force+

lemma rglob_iff:
  "wf n \<Longrightarrow> (p, c) \<in> set (rglob n) \<longleftrightarrow> p \<noteq> [] \<and> lookup n p = Some c"
proof (induction p arbitrary: n)
  case Nil
  then show ?case by (simp add: rglob_Nil_notin)
next
  case (Cons x r)
  show ?case
  proof (cases n)
    case (File bs)
    then show ?thesis by simp
  next
    case (Dir cs)
    with Cons.prems have dist: "distinct (map fst cs)" by simp
    have mem: "\<And>d. (x, d) \<in> set cs \<longleftrightarrow> map_of cs x = Some d"
      using dist by (auto dest: map_of_SomeD)
    have wfd: "\<And>d. map_of cs x = Some d \<Longrightarrow> wf d"
      using Cons.prems Dir by (auto dest: map_of_SomeD)
    show ?thesis
    proof (cases "map_of cs x")
      case None
      then show ?thesis using Dir mem by (simp only: rglob_Cons_iff) simp
    next
      case (Some d)
      have ih: "(r, c) \<in> set (rglob d) \<longleftrightarrow> r \<noteq> [] \<and> lookup d r = Some c"
        using Cons.IH [OF wfd [OF Some]] .
      show ?thesis
        using Dir Some mem ih by (simp only: rglob_Cons_iff) (cases r; auto)
    qed
  qed
qed

lemma distinct_blocks:
  "distinct (map fst cs) \<Longrightarrow>
   (\<And>e. e \<in> set cs \<Longrightarrow> distinct (map fst (rglob (snd e)))) \<Longrightarrow>
   distinct (map fst (concat (map (\<lambda>e. map (\<lambda>r. (fst e # fst r, snd r)) (rglob (snd e))) cs)))"
proof (induction cs)
  case Nil
  show ?case by simp
next
  case (Cons e cs)
  let ?blk = "\<lambda>e. map (\<lambda>r. (fst e # fst r, snd r)) (rglob (snd e))"
  have inj: "distinct (map fst (?blk e))"
    using Cons.prems(2) [of e] by (simp add: distinct_map comp_def inj_on_def)
  have rest: "distinct (map fst (concat (map ?blk cs)))"
    using Cons.IH Cons.prems by simp
  have "fst e \<notin> fst ` set cs" using Cons.prems(1) by simp
  then have disj: "set (map fst (?blk e)) \<inter> set (map fst (concat (map ?blk cs))) = {}"
    by (auto simp: image_iff)
  have "distinct (map fst (?blk e) @ map fst (concat (map ?blk cs)))"
    using inj rest disj by (simp only: distinct_append)
  then show ?case by simp
qed

lemma rglob_distinct: "wf n \<Longrightarrow> distinct (map fst (rglob n))"
proof (induction n rule: rglob.induct)
  case (1 bs)
  show ?case by simp
next
  case (2 cs)
  let ?blk = "\<lambda>e. map (\<lambda>r. (fst e # fst r, snd r)) (rglob (snd e))"
  let ?top = "map (\<lambda>e. ([fst e], snd e)) cs"
  have d: "distinct (map fst cs)" using 2(2) by simp
  have top: "distinct (map fst ?top)"
    using d by (simp add: distinct_map comp_def inj_on_def)
  have blocks: "distinct (map fst (concat (map ?blk cs)))"
    using d 2 by (intro distinct_blocks) auto
  have disj: "set (map fst ?top) \<inter> set (map fst (concat (map ?blk cs))) = {}"
    by (auto simp: image_iff rglob_Nil_notin)
  have "distinct (map fst ?top @ map fst (concat (map ?blk cs)))"
    using top blocks disj by (simp only: distinct_append)
  then show ?case by simp
qed

lemma length_filter_card:
  assumes "distinct (map fst xs)"
  shows "length (filter P xs) = card (fst ` {e \<in> set xs. P e})"
proof -
  have "distinct (map fst (filter P xs))"
    using assms by (simp add: distinct_map_filter)
  then have "card (set (map fst (filter P xs))) = length (map fst (filter P xs))"
    by (rule distinct_card)
  moreover have "set (map fst (filter P xs)) = fst ` {e \<in> set xs. P e}"
    by auto
  ultimately show ?thesis by simp
qed

lemma project_rglob_iff:
  assumes "wf fs"
  shows "(rel, c) \<in> set (project_rglob fs self) \<longleftrightarrow>
           rel \<noteq> [] \<and> lookup fs (project_path self @ rel) = Some c"
proof (cases "lookup fs (project_path self)")
  case None
  then show ?thesis by (simp add: project_rglob_def lookup_append)
next
  case (Some n)
  then have "wf n" using assms by (rule wf_lookup [rotated])
  then show ?thesis using Some by (simp add: project_rglob_def lookup_append rglob_iff)
qed

lemma project_rglob_distinct:
  assumes "wf fs"
  shows "distinct (map fst (project_rglob fs self))"
proof (cases "lookup fs (project_path self)")
  case None
  then show ?thesis by (simp add: project_rglob_def)
next
  case (Some n)
  then have "wf n" using assms by (rule wf_lookup [rotated])
  then show ?thesis using Some by (simp add: project_rglob_def rglob_distinct)
qed

lemma visited_iff:
  "visited limit rel \<longleftrightarrow> (\<forall>part \<in> set rel. \<not> hidden part) \<and> int (length rel) \<le> limit"
  by (auto simp: visited_def list_ex_iff)

subsection \<open>The scan as a fold\<close>

text \<open>Each field of the result in closed form, for any list of entries and any start.\<close>

lemma scan_total_files:
  "total_files (foldl (scan_step limit) st xs) =
     total_files st + length (filter (\<lambda>e. visited limit (fst e) \<and> is_file (snd e)) xs)"
  by (induction xs arbitrary: st)
     (auto simp: scan_step_def visited_def is_file_def Let_def split: node.splits)

lemma scan_total_dirs:
  "total_dirs (foldl (scan_step limit) st xs) =
     total_dirs st + length (filter (\<lambda>e. visited limit (fst e) \<and> is_dir (snd e)) xs)"
  by (induction xs arbitrary: st)
     (auto simp: scan_step_def visited_def is_dir_def Let_def split: node.splits)

lemma scan_empty_dirs:
  "empty_dirs (foldl (scan_step limit) st xs) =
     empty_dirs st @ map fst (filter (\<lambda>e. visited limit (fst e) \<and> snd e = Dir []) xs)"
  by (induction xs arbitrary: st)
     (auto simp: scan_step_def visited_def Let_def split: node.splits)

lemma scan_large_files:
  "large_files (foldl (scan_step limit) st xs) =
     large_files st @
     map (\<lambda>e. (fst e, size_of (snd e)))
       (filter (\<lambda>e. visited limit (fst e) \<and> is_file (snd e) \<and> 1024 * 1024 < size_of (snd e)) xs)"
  by (induction xs arbitrary: st)
     (auto simp: scan_step_def visited_def is_file_def size_of_def Let_def split: node.splits)

lemma scan_by_type:
  "opt_count (by_type (foldl (scan_step limit) st xs) t) =
     opt_count (by_type st t) +
       length (filter (\<lambda>e. visited limit (fst e) \<and> is_file (snd e) \<and> type_of_entry (fst e) = t) xs)"
  by (induction xs arbitrary: st)
     (auto simp: scan_step_def visited_def is_file_def type_of_entry_def incr_def opt_count_def Let_def
           split: node.splits option.splits)

lemma scan_by_type_card:
  assumes "wf fs"
  shows "opt_count (by_type (scan_project fs self limit) t) =
     card {rel. rel \<noteq> [] \<and> visited limit rel \<and> type_of_entry rel = t \<and>
                (\<exists>bs. lookup fs (project_path self @ rel) = Some (File bs))}"
proof -
  let ?xs = "project_rglob fs self"
  let ?P = "\<lambda>e. visited limit (fst e) \<and> is_file (snd e) \<and> type_of_entry (fst e) = t"
  have d: "distinct (map fst ?xs)" using assms by (rule project_rglob_distinct)
  have mem: "\<And>rel c. (rel, c) \<in> set ?xs \<longleftrightarrow> rel \<noteq> [] \<and> lookup fs (project_path self @ rel) = Some c"
    using assms by (rule project_rglob_iff)
  have "fst ` {e \<in> set ?xs. ?P e} =
      {rel. rel \<noteq> [] \<and> visited limit rel \<and> type_of_entry rel = t \<and>
            (\<exists>bs. lookup fs (project_path self @ rel) = Some (File bs))}" (is "?L = ?R")
  proof (intro set_eqI iffI)
    fix rel assume "rel \<in> ?L"
    then obtain c where "(rel, c) \<in> set ?xs" "visited limit rel" "is_file c" "type_of_entry rel = t"
      by auto
    then show "rel \<in> ?R" by (cases c) (auto simp: mem is_file_def)
  next
    fix rel assume "rel \<in> ?R"
    then obtain bs where "(rel, File bs) \<in> set ?xs" "visited limit rel" "type_of_entry rel = t"
      by (auto simp: mem)
    then have "(rel, File bs) \<in> {e \<in> set ?xs. ?P e}" by (simp add: is_file_def)
    then show "rel \<in> ?L" by (rule image_eqI [rotated]) simp
  qed
  moreover have "opt_count (by_type stats0 t) = 0"
    by (simp add: stats0_def opt_count_def)
  then have "opt_count (by_type (scan_project fs self limit) t) = card (fst ` {e \<in> set ?xs. ?P e})"
    by (simp add: scan_project_def scan_by_type length_filter_card [OF d])
  ultimately show ?thesis by simp
qed

lemmas scan_eval = scan_project_def project_rglob_def scan_step_def stats0_def hidden_def Let_def
  name_of_def path_suffix_def lower_def lower_char_def get_file_type_def FILE_TYPES_def incr_def

lemmas demo_eval = demo_fs_def demo_pm_def scan_eval

lemmas find_eval = find_files_def rglob_pattern_def project_rglob_def name_of_def

lemma demo_wf: "wf demo_fs"
  by (simp add: demo_fs_def valid_name_def)

subsection \<open>Counting files and directories\<close>

text \<open>
  Claim C5. For every well-formed tree and every depth limit, \<open>total_files\<close> is the
  number of paths below the root that denote a regular file, have no component
  starting with a dot and have at most \<open>limit\<close> components; \<open>total_dirs\<close> is the number
  of such paths that denote a directory.
\<close>

theorem scan_counts:
  assumes "wf fs"
  shows "total_files (scan_project fs self limit) =
           card {rel. rel \<noteq> [] \<and> (\<forall>part \<in> set rel. \<not> hidden part) \<and> int (length rel) \<le> limit \<and>
                      (\<exists>bs. lookup fs (project_path self @ rel) = Some (File bs))} \<and>
         total_dirs (scan_project fs self limit) =
           card {rel. rel \<noteq> [] \<and> (\<forall>part \<in> set rel. \<not> hidden part) \<and> int (length rel) \<le> limit \<and>
                      (\<exists>cs. lookup fs (project_path self @ rel) = Some (Dir cs))}"
proof -
  let ?xs = "project_rglob fs self"
  have d: "distinct (map fst ?xs)" using assms by (rule project_rglob_distinct)
  have mem: "\<And>rel c. (rel, c) \<in> set ?xs \<longleftrightarrow> rel \<noteq> [] \<and> lookup fs (project_path self @ rel) = Some c"
    using assms by (rule project_rglob_iff)
  have files: "fst ` {e \<in> set ?xs. visited limit (fst e) \<and> is_file (snd e)} =
      {rel. rel \<noteq> [] \<and> (\<forall>part \<in> set rel. \<not> hidden part) \<and> int (length rel) \<le> limit \<and>
            (\<exists>bs. lookup fs (project_path self @ rel) = Some (File bs))}"
  proof (intro set_eqI iffI)
    fix rel assume "rel \<in> fst ` {e \<in> set ?xs. visited limit (fst e) \<and> is_file (snd e)}"
    then obtain c where "(rel, c) \<in> set ?xs" "visited limit rel" "is_file c" by auto
    then show "rel \<in> {rel. rel \<noteq> [] \<and> (\<forall>part \<in> set rel. \<not> hidden part) \<and> int (length rel) \<le> limit \<and>
            (\<exists>bs. lookup fs (project_path self @ rel) = Some (File bs))}"
      by (cases c) (auto simp: mem visited_iff is_file_def)
  next
    fix rel assume "rel \<in> {rel. rel \<noteq> [] \<and> (\<forall>part \<in> set rel. \<not> hidden part) \<and> int (length rel) \<le> limit \<and>
            (\<exists>bs. lookup fs (project_path self @ rel) = Some (File bs))}"
    then obtain bs where "(rel, File bs) \<in> set ?xs" "visited limit rel"
      by (auto simp: mem visited_iff)
    then have "(rel, File bs) \<in> {e \<in> set ?xs. visited limit (fst e) \<and> is_file (snd e)}"
      by (simp add: is_file_def)
    then show "rel \<in> fst ` {e \<in> set ?xs. visited limit (fst e) \<and> is_file (snd e)}"
      by (rule image_eqI [rotated]) simp
  qed
  have dirs: "fst ` {e \<in> set ?xs. visited limit (fst e) \<and> is_dir (snd e)} =
      {rel. rel \<noteq> [] \<and> (\<forall>part \<in> set rel. \<not> hidden part) \<and> int (length rel) \<le> limit \<and>
            (\<exists>cs. lookup fs (project_path self @ rel) = Some (Dir cs))}"
  proof (intro set_eqI iffI)
    fix rel assume "rel \<in> fst ` {e \<in> set ?xs. visited limit (fst e) \<and> is_dir (snd e)}"
    then obtain c where "(rel, c) \<in> set ?xs" "visited limit rel" "is_dir c" by auto
    then show "rel \<in> {rel. rel \<noteq> [] \<and> (\<forall>part \<in> set rel. \<not> hidden part) \<and> int (length rel) \<le> limit \<and>
            (\<exists>cs. lookup fs (project_path self @ rel) = Some (Dir cs))}"
      by (cases c) (auto simp: mem visited_iff is_dir_def)
  next
    fix rel assume "rel \<in> {rel. rel \<noteq> [] \<and> (\<forall>part \<in> set rel. \<not> hidden part) \<and> int (length rel) \<le> limit \<and>
            (\<exists>cs. lookup fs (project_path self @ rel) = Some (Dir cs))}"
    then obtain cs where "(rel, Dir cs) \<in> set ?xs" "visited limit rel"
      by (auto simp: mem visited_iff)
    then have "(rel, Dir cs) \<in> {e \<in> set ?xs. visited limit (fst e) \<and> is_dir (snd e)}"
      by (simp add: is_dir_def)
    then show "rel \<in> fst ` {e \<in> set ?xs. visited limit (fst e) \<and> is_dir (snd e)}"
      by (rule image_eqI [rotated]) simp
  qed
  have "total_files (scan_project fs self limit) =
      card (fst ` {e \<in> set ?xs. visited limit (fst e) \<and> is_file (snd e)})"
    by (simp add: scan_project_def scan_total_files stats0_def length_filter_card [OF d])
  moreover have "total_dirs (scan_project fs self limit) =
      card (fst ` {e \<in> set ?xs. visited limit (fst e) \<and> is_dir (snd e)})"
    by (simp add: scan_project_def scan_total_dirs stats0_def length_filter_card [OF d])
  ultimately show ?thesis by (simp only: files dirs)
qed

theorem scan_counts_witness:
  "wf demo_fs \<and>
   total_files (scan_project demo_fs demo_pm 20) = 4 \<and>
   total_dirs (scan_project demo_fs demo_pm 20) = 2 \<and>
   card {rel. rel \<noteq> [] \<and> (\<forall>part \<in> set rel. \<not> hidden part) \<and> int (length rel) \<le> 20 \<and>
              (\<exists>bs. lookup demo_fs (project_path demo_pm @ rel) = Some (File bs))} = 4 \<and>
   card {rel. rel \<noteq> [] \<and> (\<forall>part \<in> set rel. \<not> hidden part) \<and> int (length rel) \<le> 20 \<and>
              (\<exists>cs. lookup demo_fs (project_path demo_pm @ rel) = Some (Dir cs))} = 2"
proof -
  have f: "total_files (scan_project demo_fs demo_pm 20) = 4"
    by (simp add: demo_eval)
  have d: "total_dirs (scan_project demo_fs demo_pm 20) = 2"
    by (simp add: demo_eval)
  from scan_counts [OF demo_wf, of demo_pm 20] f d demo_wf show ?thesis by simp
qed

subsection \<open>Large files\<close>

text \<open>
  Claim C6. A visited regular file is listed in \<open>large_files\<close>, with its size, exactly
  when the size is greater than 1048576 bytes: 1048577 bytes are listed, 1048576 are not.
\<close>

theorem large_files_threshold:
  assumes "wf fs"
    and "lookup fs (project_path self @ rel) = Some (File bs)"
    and "rel \<noteq> []"
    and "\<forall>part \<in> set rel. \<not> hidden part"
    and "int (length rel) \<le> limit"
  shows "((rel, length bs) \<in> set (large_files (scan_project fs self limit)) \<longleftrightarrow> 1048576 < length bs) \<and>
         (\<forall>sz. (rel, sz) \<in> set (large_files (scan_project fs self limit)) \<longrightarrow> sz = length bs)"
proof -
  let ?xs = "project_rglob fs self"
  let ?P = "\<lambda>e. visited limit (fst e) \<and> is_file (snd e) \<and> 1024 * 1024 < size_of (snd e)"
  have mem: "\<And>r c. (r, c) \<in> set ?xs \<longleftrightarrow> r \<noteq> [] \<and> lookup fs (project_path self @ r) = Some c"
    using assms(1) by (rule project_rglob_iff)
  have lf: "set (large_files (scan_project fs self limit)) =
      (\<lambda>e. (fst e, size_of (snd e))) ` {e \<in> set ?xs. ?P e}"
    by (simp add: scan_project_def scan_large_files stats0_def)
  have here: "(rel, File bs) \<in> set ?xs" using assms by (simp add: mem)
  have vis: "visited limit rel" using assms by (simp add: visited_iff)
  have only: "\<And>sz. (rel, sz) \<in> set (large_files (scan_project fs self limit)) \<Longrightarrow>
      sz = length bs \<and> 1048576 < length bs"
  proof -
    fix sz assume "(rel, sz) \<in> set (large_files (scan_project fs self limit))"
    then obtain c where c: "(rel, c) \<in> set ?xs" "sz = size_of c" "1024 * 1024 < size_of c"
      unfolding lf by auto
    from c(1) assms(2) have "c = File bs" by (simp add: mem)
    with c show "sz = length bs \<and> 1048576 < length bs" by (simp add: size_of_def)
  qed
  have "1048576 < length bs \<Longrightarrow> (rel, length bs) \<in> set (large_files (scan_project fs self limit))"
  proof -
    assume "1048576 < length bs"
    then have "(rel, File bs) \<in> {e \<in> set ?xs. ?P e}"
      using here vis by (simp add: is_file_def size_of_def)
    then have "(fst (rel, File bs), size_of (snd (rel, File bs))) \<in> (\<lambda>e. (fst e, size_of (snd e))) ` {e \<in> set ?xs. ?P e}"
      by (rule imageI)
    then show ?thesis unfolding lf by (simp add: size_of_def)
  qed
  with only show ?thesis by blast
qed

theorem large_files_threshold_witness:
  "wf demo_fs \<and>
   lookup demo_fs (project_path demo_pm @ [''large.bin'']) = Some (File (replicate 1048577 (CHR ''x''))) \<and>
   lookup demo_fs (project_path demo_pm @ [''edge.bin'']) = Some (File (replicate 1048576 (CHR ''x''))) \<and>
   ([''large.bin''], 1048577) \<in> set (large_files (scan_project demo_fs demo_pm 20)) \<and>
   ([''edge.bin''], 1048576) \<notin> set (large_files (scan_project demo_fs demo_pm 20))"
proof -
  have l1: "lookup demo_fs (project_path demo_pm @ [''large.bin'']) = Some (File (replicate 1048577 (CHR ''x'')))"
    by (simp add: demo_fs_def demo_pm_def)
  have l2: "lookup demo_fs (project_path demo_pm @ [''edge.bin'']) = Some (File (replicate 1048576 (CHR ''x'')))"
    by (simp add: demo_fs_def demo_pm_def)
  have h1: "\<forall>part \<in> set [''large.bin'']. \<not> hidden part" by (simp add: hidden_def)
  have h2: "\<forall>part \<in> set [''edge.bin'']. \<not> hidden part" by (simp add: hidden_def)
  from large_files_threshold [OF demo_wf l1 _ h1, of 20]
       large_files_threshold [OF demo_wf l2 _ h2, of 20] demo_wf l1 l2
  show ?thesis by simp
qed

subsection \<open>Empty directories\<close>

text \<open>
  Claim C1, as the code has it. A visited directory is listed in \<open>empty_dirs\<close> exactly
  when \<open>iterdir\<close> lists nothing in it. A directory that holds entries is not listed,
  also when every one of them is hidden.
\<close>

theorem empty_dirs_raw:
  assumes "wf fs"
    and "lookup fs (project_path self @ rel) = Some (Dir cs)"
    and "rel \<noteq> []"
    and "\<forall>part \<in> set rel. \<not> hidden part"
    and "int (length rel) \<le> limit"
  shows "(rel \<in> set (empty_dirs (scan_project fs self limit)) \<longleftrightarrow> cs = []) \<and>
         (cs \<noteq> [] \<and> (\<forall>e \<in> set cs. hidden (fst e))
            \<longrightarrow> rel \<notin> set (empty_dirs (scan_project fs self limit)))"
proof -
  let ?xs = "project_rglob fs self"
  let ?P = "\<lambda>e. visited limit (fst e) \<and> snd e = Dir []"
  have mem: "\<And>r c. (r, c) \<in> set ?xs \<longleftrightarrow> r \<noteq> [] \<and> lookup fs (project_path self @ r) = Some c"
    using assms(1) by (rule project_rglob_iff)
  have ed: "set (empty_dirs (scan_project fs self limit)) = fst ` {e \<in> set ?xs. ?P e}"
    by (simp add: scan_project_def scan_empty_dirs stats0_def)
  have here: "(rel, Dir cs) \<in> set ?xs" using assms by (simp add: mem)
  have vis: "visited limit rel" using assms by (simp add: visited_iff)
  have "rel \<in> set (empty_dirs (scan_project fs self limit)) \<Longrightarrow> cs = []"
  proof -
    assume "rel \<in> set (empty_dirs (scan_project fs self limit))"
    then have "(rel, Dir []) \<in> set ?xs" unfolding ed by auto
    with assms(2) show "cs = []" by (simp add: mem)
  qed
  moreover have "cs = [] \<Longrightarrow> rel \<in> set (empty_dirs (scan_project fs self limit))"
  proof -
    assume "cs = []"
    then have "(rel, Dir []) \<in> {e \<in> set ?xs. ?P e}" using here vis by simp
    then have "fst (rel, Dir []) \<in> fst ` {e \<in> set ?xs. ?P e}" by (rule imageI)
    then show ?thesis unfolding ed by simp
  qed
  ultimately show ?thesis by blast
qed

theorem empty_dirs_raw_witness:
  "wf demo_fs \<and>
   lookup demo_fs (project_path demo_pm @ [''empty'']) = Some (Dir []) \<and>
   lookup demo_fs (project_path demo_pm @ [''src'']) = Some (Dir [(''.keep'', File [])]) \<and>
   hidden ''.keep'' \<and>
   [''empty''] \<in> set (empty_dirs (scan_project demo_fs demo_pm 20)) \<and>
   [''src''] \<notin> set (empty_dirs (scan_project demo_fs demo_pm 20))"
proof -
  have l1: "lookup demo_fs (project_path demo_pm @ [''empty'']) = Some (Dir [])"
    by (simp add: demo_fs_def demo_pm_def)
  have l2: "lookup demo_fs (project_path demo_pm @ [''src'']) = Some (Dir [(''.keep'', File [])])"
    by (simp add: demo_fs_def demo_pm_def)
  have h1: "\<forall>part \<in> set [''empty'']. \<not> hidden part" by (simp add: hidden_def)
  have h2: "\<forall>part \<in> set [''src'']. \<not> hidden part" by (simp add: hidden_def)
  have h3: "\<forall>e \<in> set [(''.keep'', File [])]. hidden (fst e)" by (simp add: hidden_def)
  from empty_dirs_raw [OF demo_wf l1 _ h1, of 20]
       empty_dirs_raw [OF demo_wf l2 _ h2, of 20] demo_wf l1 l2 h3
  show ?thesis by simp
qed

text \<open>
  Claim C1 as stated asks for a directory whose entries are all hidden to be flagged
  empty. The directory \<open>src\<close> below holds only \<open>.keep\<close> and is not flagged.
\<close>

theorem hidden_only_dir_not_empty:
  "hidden ''.keep'' \<and>
   empty_dirs (scan_project (Dir [(''proj'', Dir [(''src'', Dir [(''.keep'', File [])])])])
                 \<lparr>project_path = [''proj'']\<rparr> 20) = []"
  by (simp add: scan_project_def project_rglob_def scan_step_def stats0_def hidden_def Let_def)

subsection \<open>Classification\<close>

lemma file_type_loop_first:
  "i < length tbl \<Longrightarrow> s \<in> set (snd (tbl ! i)) \<Longrightarrow>
   (\<And>j. j < i \<Longrightarrow> s \<notin> set (snd (tbl ! j))) \<Longrightarrow>
   file_type_loop tbl s = fst (tbl ! i)"
proof (induction tbl s arbitrary: i rule: file_type_loop.induct)
  case (1 suffix)
  then show ?case by simp
next
  case (2 file_type extensions rest suffix)
  show ?case
  proof (cases i)
    case 0
    then show ?thesis using 2(3) by simp
  next
    case (Suc k)
    have notin: "suffix \<notin> set extensions" using 2(4) [of 0] Suc by simp
    have "file_type_loop rest suffix = fst (rest ! k)"
    proof (rule 2(1) [OF notin])
      show "k < length rest" using 2(2) Suc by simp
      show "suffix \<in> set (snd (rest ! k))" using 2(3) Suc by simp
      show "\<And>j. j < k \<Longrightarrow> suffix \<notin> set (snd (rest ! j))"
        using 2(4) Suc by (metis Suc_less_eq nth_Cons_Suc)
    qed
    then show ?thesis using notin Suc by simp
  qed
qed

lemma json_is_config: "lower suffix = ''.json'' \<Longrightarrow> get_file_type suffix = ''config''"
  by (simp add: get_file_type_def FILE_TYPES_def)

text \<open>
  Claim C10. \<open>_get_file_type\<close> answers with the first category of the table, in the
  order of its declaration, that lists the lower-cased extension. \<open>.json\<close> stands under
  \<open>config\<close> (position 3) and \<open>data\<close> (position 5) and is always \<open>config\<close>, never \<open>data\<close>;
  the count \<open>by_type\<close> holds for a category is the number of visited files that
  \<open>_get_file_type\<close> puts there.
\<close>

theorem json_classified_config:
  "(i < length FILE_TYPES \<and> lower suffix \<in> set (snd (FILE_TYPES ! i)) \<and>
      (\<forall>j < i. lower suffix \<notin> set (snd (FILE_TYPES ! j)))
      \<longrightarrow> get_file_type suffix = fst (FILE_TYPES ! i)) \<and>
   ''.json'' \<in> set (snd (FILE_TYPES ! 3)) \<and> fst (FILE_TYPES ! 3) = ''config'' \<and>
   ''.json'' \<in> set (snd (FILE_TYPES ! 5)) \<and> fst (FILE_TYPES ! 5) = ''data'' \<and>
   (lower suffix = ''.json'' \<longrightarrow> get_file_type suffix = ''config'' \<and> get_file_type suffix \<noteq> ''data'') \<and>
   (wf fs \<longrightarrow>
      opt_count (by_type (scan_project fs self limit) t) =
        card {rel. rel \<noteq> [] \<and> visited limit rel \<and>
                   get_file_type (lower (path_suffix (name_of rel))) = t \<and>
                   (\<exists>bs. lookup fs (project_path self @ rel) = Some (File bs))})"
proof -
  have first: "i < length FILE_TYPES \<and> lower suffix \<in> set (snd (FILE_TYPES ! i)) \<and>
      (\<forall>j < i. lower suffix \<notin> set (snd (FILE_TYPES ! j)))
      \<longrightarrow> get_file_type suffix = fst (FILE_TYPES ! i)"
    unfolding get_file_type_def by (auto intro: file_type_loop_first)
  have tbl: "''.json'' \<in> set (snd (FILE_TYPES ! 3)) \<and> fst (FILE_TYPES ! 3) = ''config'' \<and>
      ''.json'' \<in> set (snd (FILE_TYPES ! 5)) \<and> fst (FILE_TYPES ! 5) = ''data''"
    by (simp add: FILE_TYPES_def)
  have json: "lower suffix = ''.json'' \<longrightarrow> get_file_type suffix = ''config'' \<and> get_file_type suffix \<noteq> ''data''"
    by (simp add: json_is_config)
  have scan: "wf fs \<longrightarrow>
      opt_count (by_type (scan_project fs self limit) t) =
        card {rel. rel \<noteq> [] \<and> visited limit rel \<and>
                   get_file_type (lower (path_suffix (name_of rel))) = t \<and>
                   (\<exists>bs. lookup fs (project_path self @ rel) = Some (File bs))}"
    using scan_by_type_card [of fs self limit t] by (simp add: type_of_entry_def)
  from first tbl json scan show ?thesis by blast
qed

theorem json_classified_config_witness:
  "3 < length FILE_TYPES \<and> lower ''.JSON'' \<in> set (snd (FILE_TYPES ! 3)) \<and>
   lower ''.JSON'' \<notin> set (snd (FILE_TYPES ! 0)) \<and>
   lower ''.JSON'' \<notin> set (snd (FILE_TYPES ! 1)) \<and>
   lower ''.JSON'' \<notin> set (snd (FILE_TYPES ! 2)) \<and>
   get_file_type ''.JSON'' = ''config'' \<and>
   wf demo_fs \<and>
   by_type (scan_project demo_fs demo_pm 20) ''config'' = Some 1 \<and>
   by_type (scan_project demo_fs demo_pm 20) ''data'' = None \<and>
   card {rel. rel \<noteq> [] \<and> visited 20 rel \<and>
              get_file_type (lower (path_suffix (name_of rel))) = ''data'' \<and>
              (\<exists>bs. lookup demo_fs (project_path demo_pm @ rel) = Some (File bs))} = 0"
proof -
  have a: "3 < length FILE_TYPES" by (simp add: FILE_TYPES_def)
  have b: "lower ''.JSON'' \<in> set (snd (FILE_TYPES ! 3))"
    by (simp add: FILE_TYPES_def lower_def lower_char_def)
  have c: "\<forall>j < 3. lower ''.JSON'' \<notin> set (snd (FILE_TYPES ! j))"
    by (simp add: FILE_TYPES_def lower_def lower_char_def numeral_3_eq_3 less_Suc_eq)
  have t: "fst (FILE_TYPES ! 3) = ''config''" by (simp add: FILE_TYPES_def)
  have s1: "by_type (scan_project demo_fs demo_pm 20) ''config'' = Some 1"
    by (simp add: demo_eval)
  have s2: "by_type (scan_project demo_fs demo_pm 20) ''data'' = None"
    by (simp add: demo_eval)
  from json_classified_config [of 3 "''.JSON''" demo_fs demo_pm 20 "''data''"] a b c t s1 s2 demo_wf
  show ?thesis by (simp add: opt_count_def)
qed

subsection \<open>Formatting sizes\<close>

text \<open>
  \<open>bit_length\<close> and \<open>round53\<close> do what their names say: \<open>round53 n\<close> is a multiple of the
  unit in the last place of \<open>n\<close>, at most half a unit away from it, even on a tie, and
  reaches \<open>2 ^ 1034\<close> from \<open>2 ^ 1034 - 2 ^ 980\<close> on.
\<close>

lemma bit_length_upper: "n < 2 ^ bit_length n"
proof (induction n rule: bit_length.induct)
  case (1 n)
  show ?case
  proof (cases "n = 0")
    case True
    then show ?thesis by simp
  next
    case False
    then have "n div 2 < 2 ^ bit_length (n div 2)" using 1 by simp
    then have "n < 2 * 2 ^ bit_length (n div 2)" by linarith
    then show ?thesis using False by (simp add: bit_length.simps [of n])
  qed
qed

lemma bit_length_lower: "n \<noteq> 0 \<Longrightarrow> 2 ^ (bit_length n - 1) \<le> n"
proof (induction n rule: bit_length.induct)
  case (1 n)
  have bl: "bit_length n = Suc (bit_length (n div 2))"
    using 1(2) by (simp add: bit_length.simps [of n])
  show ?case
  proof (cases "n div 2 = 0")
    case True
    then have "bit_length (n div 2) = 0" by (simp add: bit_length.simps)
    then show ?thesis using bl 1(2) by simp
  next
    case False
    then have ih: "2 ^ (bit_length (n div 2) - 1) \<le> n div 2" using 1 by simp
    have "bit_length (n div 2) \<noteq> 0" using False by (simp add: bit_length.simps [of "n div 2"])
    then obtain k where k: "bit_length (n div 2) = Suc k" by (cases "bit_length (n div 2)") auto
    have "(2::nat) ^ Suc k = 2 * 2 ^ k" by simp
    also have "\<dots> \<le> 2 * (n div 2)" using ih k by simp
    also have "\<dots> \<le> n" by simp
    finally show ?thesis using bl k by simp
  qed
qed

lemma bit_length_le: "n < 2 ^ k \<Longrightarrow> bit_length n \<le> k"
proof (rule ccontr)
  assume n: "n < 2 ^ k" and c: "\<not> bit_length n \<le> k"
  then have k: "k \<le> bit_length n - 1" by simp
  have "bit_length 0 = 0" by (simp add: bit_length.simps)
  then have "n \<noteq> 0" using c by (cases "n = 0") auto
  then have "2 ^ (bit_length n - 1) \<le> n" by (rule bit_length_lower)
  moreover have "(2::nat) ^ k \<le> 2 ^ (bit_length n - 1)" using k by (simp add: power_increasing)
  ultimately show False using n by linarith
qed

lemma bit_length_gt: "2 ^ k \<le> n \<Longrightarrow> k < bit_length n"
proof (rule ccontr)
  assume n: "2 ^ k \<le> n" and "\<not> k < bit_length n"
  then have "bit_length n \<le> k" by simp
  then have "(2::nat) ^ bit_length n \<le> 2 ^ k" by (simp add: power_increasing)
  moreover have "n < 2 ^ bit_length n" by (rule bit_length_upper)
  ultimately show False using n by linarith
qed

lemma round53_small: "n < 2 ^ 53 \<Longrightarrow> round53 n = n"
  using bit_length_le [of n 53] by (simp add: round53_def)


lemma bit_length_0: "bit_length 0 = 0"
  by (simp add: bit_length.simps)

lemma round53_cases:
  assumes b: "53 < bit_length n"
  obtains
    (down) q r where "n = q * 2 ^ (bit_length n - 53) + r"
      "2 * r < 2 ^ (bit_length n - 53) \<or> 2 * r = 2 ^ (bit_length n - 53) \<and> even q"
      "round53 n = q * 2 ^ (bit_length n - 53)" "2 ^ 52 \<le> q" "q < 2 ^ 53"
  | (up) q r where "n = q * 2 ^ (bit_length n - 53) + r" "r < 2 ^ (bit_length n - 53)"
      "2 ^ (bit_length n - 53) < 2 * r \<or> 2 * r = 2 ^ (bit_length n - 53) \<and> odd q"
      "round53 n = (q + 1) * 2 ^ (bit_length n - 53)" "2 ^ 52 \<le> q" "q < 2 ^ 53"
proof -
  define s where "s = bit_length n - 53"
  define S where "S = (2::nat) ^ s"
  define H where "H = (2::nat) ^ (s - 1)"
  define q where "q = n div S"
  define r where "r = n mod S"
  have s1: "1 \<le> s" using b by (simp add: s_def)
  have SH: "S = 2 * H"
  proof -
    obtain k where "s = Suc k" using s1 by (cases s) auto
    then show ?thesis by (simp add: S_def H_def)
  qed
  have Spos: "0 < S" by (simp add: S_def)
  have n: "n = q * S + r" by (simp add: q_def r_def)
  have r: "r < S" using Spos by (simp add: r_def)
  have bl: "bit_length n = 53 + s" using b by (simp add: s_def)
  have "n \<noteq> 0" using b bit_length_0 by (cases "n = 0") auto
  then have lo: "2 ^ (bit_length n - 1) \<le> n" by (rule bit_length_lower)
  have hi: "n < 2 ^ bit_length n" by (rule bit_length_upper)
  have hi': "n < 2 ^ 53 * S" using hi bl by (simp add: S_def power_add)
  have "bit_length n - 1 = 52 + s" using bl by simp
  then have lo': "2 ^ 52 * S \<le> n" using lo by (simp add: S_def power_add)
  have q_hi: "q < 2 ^ 53"
    unfolding q_def using hi' Spos by (simp add: less_mult_imp_div_less)
  have q_lo: "2 ^ 52 \<le> q"
  proof -
    have "(2 ^ 52 * S) div S \<le> n div S" using lo' by (rule div_le_mono)
    then show ?thesis using Spos by (simp add: q_def)
  qed
  have rd: "round53 n =
      (if r < H then q else if H < r then q + 1 else if even q then q else q + 1) * S"
    using b by (simp add: round53_def Let_def s_def S_def H_def q_def r_def)
  show thesis
  proof (cases "r < H \<or> r = H \<and> even q")
    case True
    then have "round53 n = q * S" using rd by auto
    moreover have "2 * r < S \<or> 2 * r = S \<and> even q" using True SH by auto
    ultimately show thesis
      using down [of q r] n q_lo q_hi unfolding S_def s_def by blast
  next
    case False
    then have "round53 n = (q + 1) * S" using rd by auto
    moreover have "S < 2 * r \<or> 2 * r = S \<and> odd q" using False SH by auto
    ultimately show thesis
      using up [of q r] n r q_lo q_hi unfolding S_def s_def by blast
  qed
qed


lemma round53_ge: "53 < bit_length n \<Longrightarrow> 2 ^ (bit_length n - 1) \<le> round53 n"
proof -
  assume b: "53 < bit_length n"
  have e: "bit_length n - 1 = 52 + (bit_length n - 53)" using b by simp
  have p: "(2::nat) ^ (bit_length n - 1) = 2 ^ 52 * 2 ^ (bit_length n - 53)"
    by (simp only: e power_add)
  from b show ?thesis
  proof (cases rule: round53_cases)
    case (down q r)
    have "2 ^ 52 * 2 ^ (bit_length n - 53) \<le> q * 2 ^ (bit_length n - 53)"
      using down(4) by (rule mult_le_mono1)
    then show ?thesis using down(3) p by simp
  next
    case (up q r)
    have "2 ^ 52 \<le> q + 1" using up(5) by simp
    then have "2 ^ 52 * 2 ^ (bit_length n - 53) \<le> (q + 1) * 2 ^ (bit_length n - 53)"
      by (rule mult_le_mono1)
    then show ?thesis using up(4) p by simp
  qed
qed

lemma round53_le: "round53 n \<le> 2 ^ bit_length n"
proof (cases "53 < bit_length n")
  case False
  then have "round53 n = n" by (simp add: round53_def)
  then show ?thesis using bit_length_upper [of n] by simp
next
  case True
  have e: "bit_length n = 53 + (bit_length n - 53)" using True by simp
  have p: "(2::nat) ^ bit_length n = 2 ^ 53 * 2 ^ (bit_length n - 53)"
    using e power_add [of "2::nat" 53 "bit_length n - 53"] by simp
  from True show ?thesis
  proof (cases rule: round53_cases)
    case (down q r)
    have "q \<le> 2 ^ 53" using down(5) by simp
    then have "q * 2 ^ (bit_length n - 53) \<le> 2 ^ 53 * 2 ^ (bit_length n - 53)"
      by (rule mult_le_mono1)
    then show ?thesis using down(3) p by simp
  next
    case (up q r)
    have "q + 1 \<le> 2 ^ 53" using up(6) by simp
    then have "(q + 1) * 2 ^ (bit_length n - 53) \<le> 2 ^ 53 * 2 ^ (bit_length n - 53)"
      by (rule mult_le_mono1)
    then show ?thesis using up(4) p by simp
  qed
qed

lemma round53_unit: "k \<le> 53 \<Longrightarrow> round53 n < 2 ^ k \<longleftrightarrow> n < 2 ^ k"
proof (cases "53 < bit_length n")
  case False
  then show ?thesis by (simp add: round53_def)
next
  case True
  assume k: "k \<le> 53"
  have "k \<le> bit_length n - 1" using k True by simp
  then have p: "(2::nat) ^ k \<le> 2 ^ (bit_length n - 1)" by (rule power_increasing) simp
  have "n \<noteq> 0" using True bit_length_0 by (cases "n = 0") auto
  then have "2 ^ k \<le> n" using p bit_length_lower [of n] by linarith
  moreover have "2 ^ k \<le> round53 n" using p round53_ge [OF True] by linarith
  ultimately show ?thesis by simp
qed

lemma round53_nearest:
  assumes "53 < bit_length n"
  shows "2 * (round53 n - n) \<le> 2 ^ (bit_length n - 53) \<and>
         2 * (n - round53 n) \<le> 2 ^ (bit_length n - 53) \<and>
         (2 * (round53 n - n) = 2 ^ (bit_length n - 53) \<or>
          2 * (n - round53 n) = 2 ^ (bit_length n - 53)
            \<longrightarrow> even (round53 n div 2 ^ (bit_length n - 53))) \<and>
         2 ^ (bit_length n - 53) dvd round53 n"
  using assms
proof (cases rule: round53_cases)
  case (down q r)
  define S where "S = (2::nat) ^ (bit_length n - 53)"
  define Q where "Q = q * S"
  have S: "0 < S" by (simp add: S_def)
  have n: "n = Q + r" and rd: "round53 n = Q" and t: "2 * r < S \<or> 2 * r = S \<and> even q"
    using down by (simp_all add: S_def Q_def)
  have dv: "round53 n div S = q" using down(3) S by (simp add: S_def)
  have "S dvd round53 n" using down(3) by (simp add: S_def)
  moreover have "2 * (round53 n - n) \<le> S" using n rd by simp
  moreover have "2 * (n - round53 n) \<le> S" using n rd t by auto
  moreover have "2 * (round53 n - n) = S \<or> 2 * (n - round53 n) = S \<longrightarrow> even (round53 n div S)"
    using n rd t S dv by auto
  ultimately show ?thesis unfolding S_def by blast
next
  case (up q r)
  define S where "S = (2::nat) ^ (bit_length n - 53)"
  define Q where "Q = q * S"
  have S: "0 < S" by (simp add: S_def)
  have n: "n = Q + r" and rd: "round53 n = Q + S" and r: "r < S"
    and t: "S < 2 * r \<or> 2 * r = S \<and> odd q"
    using up by (simp_all add: S_def Q_def)
  have dv: "round53 n div S = q + 1" using up(4) S by (simp add: S_def)
  have "S dvd round53 n" using up(4) by (simp add: S_def)
  moreover have "2 * (round53 n - n) \<le> S" using n rd t r by auto
  moreover have "2 * (n - round53 n) \<le> S" using n rd r by simp
  moreover have "2 * (round53 n - n) = S \<or> 2 * (n - round53 n) = S \<longrightarrow> even (round53 n div S)"
    using n rd t r S dv by auto
  ultimately show ?thesis unfolding S_def by blast
qed


lemma mult_bound: "(q::nat) + k \<le> M \<Longrightarrow> q * S + k * S \<le> M * S"
proof -
  assume "q + k \<le> M"
  then have "(q + k) * S \<le> M * S" by (rule mult_le_mono1)
  then show ?thesis by (simp add: algebra_simps)
qed

lemma round53_overflow_gen:
  assumes e: "54 \<le> e"
  shows "2 ^ e \<le> round53 n \<longleftrightarrow> 2 ^ e \<le> n + 2 ^ (e - 54)"
proof -
  define H where "H = (2::nat) ^ (e - 54)"
  define S where "S = (2::nat) ^ (e - 53)"
  define M where "M = (2::nat) ^ 53"
  have SH: "S = 2 * H"
  proof -
    have "e - 53 = Suc (e - 54)" using e by simp
    then show ?thesis by (simp add: S_def H_def)
  qed
  have Hpos: "0 < H" by (simp add: H_def)
  have E: "(2::nat) ^ e = M * S"
  proof -
    have "e = 53 + (e - 53)" using e by simp
    then have "(2::nat) ^ e = 2 ^ 53 * 2 ^ (e - 53)" by (metis power_add)
    then show ?thesis by (simp only: M_def S_def)
  qed
  have Meven: "even M" by (simp add: M_def)
  have e1: "(2::nat) ^ e = 2 * 2 ^ (e - 1)"
  proof -
    have "e = Suc (e - 1)" using e by simp
    then show ?thesis by (metis power_Suc)
  qed
  have Hle: "H \<le> 2 ^ (e - 1)" unfolding H_def by (rule power_increasing) simp_all
  consider (gt) "e < bit_length n" | (lt) "bit_length n < e" | (eq) "bit_length n = e"
    by linarith
  then show ?thesis
  proof cases
    case gt
    then have b: "53 < bit_length n" using e by simp
    have "e \<le> bit_length n - 1" using gt by simp
    then have p: "(2::nat) ^ e \<le> 2 ^ (bit_length n - 1)" by (rule power_increasing) simp
    have "n \<noteq> 0" using b bit_length_0 by (cases "n = 0") auto
    then have "2 ^ e \<le> n" using p bit_length_lower [of n] by linarith
    moreover have "2 ^ e \<le> round53 n" using p round53_ge [OF b] by linarith
    ultimately show ?thesis by simp
  next
    case lt
    then have "bit_length n \<le> e - 1" by simp
    then have p: "(2::nat) ^ bit_length n \<le> 2 ^ (e - 1)" by (rule power_increasing) simp
    have "n < 2 ^ (e - 1)" using p bit_length_upper [of n] by linarith
    then have nl: "\<not> 2 ^ e \<le> n + H" using e1 Hle by linarith
    have "round53 n \<le> 2 ^ (e - 1)" using p round53_le [of n] by linarith
    moreover have "0 < (2::nat) ^ (e - 1)" by simp
    ultimately have "\<not> 2 ^ e \<le> round53 n" using e1 by linarith
    with nl show ?thesis by (simp add: H_def)
  next
    case eq
    then have b: "53 < bit_length n" using e by simp
    from b show ?thesis
    proof (cases rule: round53_cases)
      case (down q r)
      define Q where "Q = q * S"
      have n: "n = Q + r" and rd: "round53 n = Q" and t: "2 * r < S \<or> 2 * r = S \<and> even q"
        and q: "q < M"
        using down eq by (simp_all add: S_def Q_def M_def)
      have "q + 1 \<le> M" using q by simp
      then have b1: "Q + 1 * S \<le> M * S" unfolding Q_def by (rule mult_bound)
      have l: "\<not> M * S \<le> round53 n" using rd b1 SH Hpos by simp
      have "\<not> M * S \<le> n + H"
      proof (cases "2 * r < S")
        case True
        then show ?thesis using n b1 SH by simp
      next
        case False
        then have r: "2 * r = S" and "even q" using t by auto
        then have "q + 2 \<le> M" using q Meven by (cases "q + 1 = M") auto
        then have "Q + 2 * S \<le> M * S" unfolding Q_def by (rule mult_bound)
        then show ?thesis using n r SH Hpos by simp
      qed
      with l show ?thesis unfolding E H_def [symmetric] by simp
    next
      case (up q r)
      define Q where "Q = q * S"
      have n: "n = Q + r" and rd: "round53 n = Q + S" and r: "r < S"
        and t: "S < 2 * r \<or> 2 * r = S \<and> odd q" and q: "q < M"
        using up eq by (simp_all add: S_def Q_def M_def)
      show ?thesis
      proof (cases "q + 1 = M")
        case True
        have "M * S = Q + S" using True unfolding Q_def by (metis add_mult_distrib mult_1)
        then show ?thesis unfolding E H_def [symmetric] using n rd t SH by auto
      next
        case False
        then have "q + 2 \<le> M" using q by simp
        then have "Q + 2 * S \<le> M * S" unfolding Q_def by (rule mult_bound)
        then show ?thesis unfolding E H_def [symmetric] using n rd r SH Hpos by simp
      qed
    qed
  qed
qed

lemma round53_overflow: "2 ^ 1034 \<le> round53 n \<longleftrightarrow> 2 ^ 1034 \<le> n + 2 ^ 980"
  using round53_overflow_gen [of 1034 n] by simp


lemma round_tenths_nearest: "0 \<le> x \<Longrightarrow> nearest_tenths x (round_tenths x)"
proof -
  assume x: "0 \<le> x"
  define t where "t = x * 10"
  define f where "f = \<lfloor>t\<rfloor>"
  have t0: "0 \<le> t" using x by (simp add: t_def)
  have f0: "0 \<le> f" using t0 by (simp add: f_def)
  have lo: "of_int f \<le> t" and hi: "t < of_int f + 1" by (simp_all add: f_def)
  have rt: "round_tenths x =
      nat (if t - of_int f < 1 / 2 then f else if 1 / 2 < t - of_int f then f + 1
           else if even f then f else f + 1)"
    by (simp add: round_tenths_def Let_def t_def f_def)
  have rn: "real (nat f) = of_int f" using f0 by simp
  have rn1: "real (nat (f + 1)) = of_int f + 1" using f0 by simp
  have ev: "even (nat f) = even f" using f0 by (simp add: even_nat_iff)
  have ev1: "even (nat (f + 1)) = even (f + 1)" using f0 by (simp add: even_nat_iff)
  show ?thesis
    unfolding nearest_tenths_def t_def [symmetric] rt
    using lo hi rn rn1 ev ev1 by (auto simp: abs_if)
qed

lemma digits_nonempty: "digits m \<noteq> []"
  by (simp add: digits.simps [of m])

lemma digit_char_range: "d < 10 \<Longrightarrow> ''0123456789'' ! d \<in> set ''0123456789''"
  by (rule nth_mem) simp

lemma digits_set: "set (digits m) \<subseteq> set ''0123456789''"
proof (induction m rule: digits.induct)
  case (1 n)
  show ?case
  proof (cases "n < 10")
    case True
    then show ?thesis using digit_char_range [of n] by (simp add: digits.simps [of n])
  next
    case False
    then have "set (digits (n div 10)) \<subseteq> set ''0123456789''" using 1 by simp
    moreover have "''0123456789'' ! (n mod 10) \<in> set ''0123456789''"
      by (rule digit_char_range) simp
    ultimately show ?thesis using False by (simp add: digits.simps [of n])
  qed
qed

lemma digits_hd: "0 < m \<Longrightarrow> hd (digits m) \<noteq> CHR ''0''"
proof (induction m rule: digits.induct)
  case (1 n)
  show ?case
  proof (cases "n < 10")
    case True
    then have d: "digits n = [''0123456789'' ! n]" by (simp add: digits.simps [of n])
    have "n \<in> {1, 2, 3, 4, 5, 6, 7, 8, 9}" using True 1(2) by auto
    then show ?thesis unfolding d by auto
  next
    case False
    then have "0 < n div 10" by simp
    then have "hd (digits (n div 10)) \<noteq> CHR ''0''" using 1 False by simp
    then show ?thesis using False digits_nonempty [of "n div 10"]
      by (simp add: digits.simps [of n])
  qed
qed

lemma digit_val_nth: "d < 10 \<Longrightarrow> digit_val (''0123456789'' ! d) = d"
proof -
  assume "d < 10"
  then have "d \<in> {0, 1, 2, 3, 4, 5, 6, 7, 8, 9}" by auto
  then show ?thesis by (auto simp: digit_val_def)
qed

lemma decimal_snoc: "decimal (s @ [c]) = 10 * decimal s + digit_val c"
  by (simp add: decimal_def)

lemma decimal_digits: "decimal (digits m) = m"
proof (induction m rule: digits.induct)
  case (1 n)
  show ?case
  proof (cases "n < 10")
    case True
    then show ?thesis by (simp add: digits.simps [of n] decimal_def digit_val_nth)
  next
    case False
    then have "decimal (digits (n div 10)) = n div 10" using 1 by simp
    then show ?thesis using False
      by (simp add: digits.simps [of n] decimal_snoc digit_val_nth)
  qed
qed

lemma format_size_chain:
  "format_size n =
     (if n < 1024 then Inr (format_1f (real n) @ '' B'')
      else if 2 ^ 1034 \<le> n + 2 ^ 980 then Inl OverflowError
      else if n < 1024 ^ 2 then Inr (format_1f (real (round53 n) / 1024) @ '' KB'')
      else if n < 1024 ^ 3 then Inr (format_1f (real (round53 n) / 1024 ^ 2) @ '' MB'')
      else if n < 1024 ^ 4 then Inr (format_1f (real (round53 n) / 1024 ^ 3) @ '' GB'')
      else Inr (format_1f (real (round53 n) / 1024 ^ 4) @ '' TB''))"
proof (cases "n < 1024")
  case True
  then show ?thesis by (simp add: format_size_def value_of_def)
next
  case n1: False
  show ?thesis
  proof (cases "2 ^ 1034 \<le> n + 2 ^ 980")
    case True
    have "2 ^ 1034 \<le> round53 n" using True round53_overflow [of n] by blast
    then show ?thesis using n1 True
      by (simp add: format_size_def value_of_def div_1024_def del: power_numeral)
  next
    case False
    have no: "\<not> 2 ^ 1034 \<le> round53 n" using False round53_overflow [of n] by blast
    define m where "m = round53 n"
    have u2: "real m / 1024 < 1024 \<longleftrightarrow> n < 1024 ^ 2"
    proof -
      have "real m / 1024 < 1024 \<longleftrightarrow> m < 2 ^ 20" by (simp add: field_simps)
      also have "\<dots> \<longleftrightarrow> n < 2 ^ 20" unfolding m_def by (rule round53_unit) simp
      finally show ?thesis by simp
    qed
    have u3: "real m / 1024 / 1024 < 1024 \<longleftrightarrow> n < 1024 ^ 3"
    proof -
      have "real m / 1024 / 1024 < 1024 \<longleftrightarrow> m < 2 ^ 30" by (simp add: field_simps)
      also have "\<dots> \<longleftrightarrow> n < 2 ^ 30" unfolding m_def by (rule round53_unit) simp
      finally show ?thesis by simp
    qed
    have u4: "real m / 1024 / 1024 / 1024 < 1024 \<longleftrightarrow> n < 1024 ^ 4"
    proof -
      have "real m / 1024 / 1024 / 1024 < 1024 \<longleftrightarrow> m < 2 ^ 40" by (simp add: field_simps)
      also have "\<dots> \<longleftrightarrow> n < 2 ^ 40" unfolding m_def by (rule round53_unit) simp
      finally show ?thesis by simp
    qed
    have d: "div_1024 (PyInt n) = Inr (real m / 1024)"
      using no by (simp add: div_1024_def m_def del: power_numeral)
    have "format_size n = format_size_loop [''KB'', ''MB'', ''GB''] (PyFloat (real m / 1024))"
      using n1 d by (simp add: format_size_def value_of_def)
    also have "\<dots> =
      (if n < 1024 ^ 2 then Inr (format_1f (real m / 1024) @ '' KB'')
       else if n < 1024 ^ 3 then Inr (format_1f (real m / 1024 ^ 2) @ '' MB'')
       else if n < 1024 ^ 4 then Inr (format_1f (real m / 1024 ^ 3) @ '' GB'')
       else Inr (format_1f (real m / 1024 ^ 4) @ '' TB''))"
      using u2 u3 u4 by (simp add: value_of_def div_1024_def)
    finally show ?thesis using n1 False unfolding m_def by (simp del: power_numeral)
  qed
qed


lemma round53_sample: "round53 1152921779484753921 = 1152921779484753920"
proof -
  have "(2::nat) ^ 60 \<le> 1152921779484753921" by simp
  then have "60 < bit_length 1152921779484753921" by (rule bit_length_gt)
  moreover have "(1152921779484753921::nat) < 2 ^ 61" by simp
  then have "bit_length 1152921779484753921 \<le> 61" by (rule bit_length_le)
  ultimately have "bit_length 1152921779484753921 = 61" by simp
  then show ?thesis by (simp add: round53_def)
qed

text \<open>
  Claim C7, as the code has it. \<open>_format_size\<close> returns at the first of the units B, KB,
  MB, GB at which the value, divided by 1024 once per earlier unit, is below 1024, and
  otherwise answers in TB, above which there is no unit; the number is the double
  nearest to the quotient, printed with one decimal, the nearest one, even on a tie. A
  size of \<open>2 ^ 1034 - 2 ^ 980\<close> or more does not reach TB: the first division raises
  \<open>OverflowError\<close>. In particular 512 is \<open>512.0 B\<close>, 1024 is \<open>1.0 KB\<close>, 1048576 is
  \<open>1.0 MB\<close> and 1073741824 is \<open>1.0 GB\<close>; 2047 is \<open>2.0 KB\<close>, and 1152921779484753921,
  which is no double, is \<open>1048576.2 TB\<close>.
\<close>

theorem format_size_units:
  "format_size 512 = Inr ''512.0 B'' \<and> format_size 1024 = Inr ''1.0 KB'' \<and>
   format_size 1048576 = Inr ''1.0 MB'' \<and> format_size 1073741824 = Inr ''1.0 GB'' \<and>
   format_size 2047 = Inr ''2.0 KB'' \<and> format_size 1280 = Inr ''1.2 KB'' \<and>
   format_size 3840 = Inr ''3.8 KB'' \<and>
   format_size 1152921779484753921 = Inr ''1048576.2 TB'' \<and>
   format_size n =
     (if n < 1024 then Inr (format_1f (real n) @ '' B'')
      else if 2 ^ 1034 \<le> n + 2 ^ 980 then Inl OverflowError
      else if n < 1024 ^ 2 then Inr (format_1f (real (round53 n) / 1024) @ '' KB'')
      else if n < 1024 ^ 3 then Inr (format_1f (real (round53 n) / 1024 ^ 2) @ '' MB'')
      else if n < 1024 ^ 4 then Inr (format_1f (real (round53 n) / 1024 ^ 3) @ '' GB'')
      else Inr (format_1f (real (round53 n) / 1024 ^ 4) @ '' TB'')) \<and>
   (0 \<le> x \<longrightarrow>
      (\<exists>q. nearest_tenths x q \<and> format_1f x = digits (q div 10) @ ''.'' @ digits (q mod 10))) \<and>
   decimal (digits m) = m \<and> set (digits m) \<subseteq> set ''0123456789'' \<and>
   (0 < m \<longrightarrow> hd (digits m) \<noteq> CHR ''0'') \<and>
   (n < 2 ^ 53 \<longrightarrow> round53 n = n) \<and>
   (53 < bit_length n \<longrightarrow>
      2 * (round53 n - n) \<le> 2 ^ (bit_length n - 53) \<and>
      2 * (n - round53 n) \<le> 2 ^ (bit_length n - 53) \<and>
      (2 * (round53 n - n) = 2 ^ (bit_length n - 53) \<or>
       2 * (n - round53 n) = 2 ^ (bit_length n - 53)
         \<longrightarrow> even (round53 n div 2 ^ (bit_length n - 53))) \<and>
      2 ^ (bit_length n - 53) dvd round53 n) \<and>
   (n \<noteq> 0 \<longrightarrow> 2 ^ (bit_length n - 1) \<le> n \<and> n < 2 ^ bit_length n)"
proof -
  have small: "format_size 512 = Inr ''512.0 B'' \<and> format_size 1024 = Inr ''1.0 KB'' \<and>
      format_size 1048576 = Inr ''1.0 MB'' \<and> format_size 1073741824 = Inr ''1.0 GB'' \<and>
      format_size 2047 = Inr ''2.0 KB'' \<and> format_size 1280 = Inr ''1.2 KB'' \<and>
      format_size 3840 = Inr ''3.8 KB''"
    by (simp add: format_size_chain round53_small format_1f_def round_tenths_def digits.simps)
  have big: "format_size 1152921779484753921 = Inr ''1048576.2 TB''"
    by (simp add: format_size_chain round53_sample format_1f_def round_tenths_def digits.simps)
  have fmt: "0 \<le> x \<longrightarrow>
      (\<exists>q. nearest_tenths x q \<and> format_1f x = digits (q div 10) @ ''.'' @ digits (q mod 10))"
  proof
    assume "0 \<le> x"
    then have "nearest_tenths x (round_tenths x)" by (rule round_tenths_nearest)
    moreover have "format_1f x =
        digits (round_tenths x div 10) @ ''.'' @ digits (round_tenths x mod 10)"
      by (simp add: format_1f_def Let_def)
    ultimately show "\<exists>q. nearest_tenths x q \<and>
        format_1f x = digits (q div 10) @ ''.'' @ digits (q mod 10)" by blast
  qed
  have id53: "n < 2 ^ 53 \<longrightarrow> round53 n = n" using round53_small [of n] by blast
  have near: "53 < bit_length n \<longrightarrow>
      2 * (round53 n - n) \<le> 2 ^ (bit_length n - 53) \<and>
      2 * (n - round53 n) \<le> 2 ^ (bit_length n - 53) \<and>
      (2 * (round53 n - n) = 2 ^ (bit_length n - 53) \<or>
       2 * (n - round53 n) = 2 ^ (bit_length n - 53)
         \<longrightarrow> even (round53 n div 2 ^ (bit_length n - 53))) \<and>
      2 ^ (bit_length n - 53) dvd round53 n"
    using round53_nearest [of n] by blast
  have bl: "n \<noteq> 0 \<longrightarrow> 2 ^ (bit_length n - 1) \<le> n \<and> n < 2 ^ bit_length n"
    using bit_length_lower [of n] bit_length_upper [of n] by blast
  have dg: "set (digits m) \<subseteq> set ''0123456789'' \<and> (0 < m \<longrightarrow> hd (digits m) \<noteq> CHR ''0'')"
    using digits_set [of m] digits_hd [of m] by blast
  note chain = format_size_chain [of n]
  note dec = decimal_digits [of m]
  from small big chain fmt dec dg id53 near bl
  show ?thesis by blast
qed

theorem format_size_units_witness:
  "format_size (2 ^ 50) = Inr ''1024.0 TB'' \<and>
   format_size (2 ^ 53 + 1) = Inr ''8192.0 TB'' \<and>
   nearest_tenths (2047 / 1024) 20 \<and>
   format_1f (2047 / 1024) = ''2.0'' \<and>
   round53 4095 = 4095 \<and>
   bit_length (2 ^ 53 + 3) = 54 \<and> round53 (2 ^ 53 + 3) = 2 ^ 53 + 4"
proof -
  have b54: "bit_length (2 ^ 53 + 3) = 54"
  proof -
    have "(2::nat) ^ 53 \<le> 2 ^ 53 + 3" by simp
    then have "53 < bit_length (2 ^ 53 + 3)" by (rule bit_length_gt)
    moreover have "(2::nat) ^ 53 + 3 < 2 ^ 54" by simp
    then have "bit_length (2 ^ 53 + 3) \<le> 54" by (rule bit_length_le)
    ultimately show ?thesis by simp
  qed
  have b54': "bit_length (2 ^ 53 + 1) = 54"
  proof -
    have "(2::nat) ^ 53 \<le> 2 ^ 53 + 1" by simp
    then have "53 < bit_length (2 ^ 53 + 1)" by (rule bit_length_gt)
    moreover have "(2::nat) ^ 53 + 1 < 2 ^ 54" by simp
    then have "bit_length (2 ^ 53 + 1) \<le> 54" by (rule bit_length_le)
    ultimately show ?thesis by simp
  qed
  have r3: "round53 (2 ^ 53 + 3) = 2 ^ 53 + 4" using b54 by (simp add: round53_def)
  have r1: "round53 (2 ^ 53 + 1) = 2 ^ 53" using b54' by (simp add: round53_def)
  have r50: "round53 (2 ^ 50) = 2 ^ 50" by (simp add: round53_small)
  have f: "format_1f (2047 / 1024) = ''2.0''"
    by (simp add: format_1f_def round_tenths_def digits.simps)
  have nt: "nearest_tenths (2047 / 1024) 20" by (simp add: nearest_tenths_def)
  have w1: "format_size (2 ^ 50) = Inr ''1024.0 TB''"
    using format_size_units [of "2 ^ 50" 0 0] r50
    by (simp add: format_1f_def round_tenths_def digits.simps)
  have w2: "format_size (2 ^ 53 + 1) = Inr ''8192.0 TB''"
    using format_size_units [of "2 ^ 53 + 1" 0 0] r1
    by (simp add: format_1f_def round_tenths_def digits.simps)
  have w3: "round53 4095 = 4095" using format_size_units [of 4095 0 0] by simp
  from w1 w2 nt f w3 b54 r3 show ?thesis by simp
qed

text \<open>
  Claim C7 as stated lets every size fall through to TB, without an upper bound. The
  size \<open>2 ^ 1034\<close> does not: \<open>size /= 1024\<close> has no double for the quotient.
\<close>

theorem format_size_overflows:
  "format_size (2 ^ 1034) = Inl OverflowError"
  by (simp add: format_size_chain)

subsection \<open>The tree listing\<close>

text \<open>
  Claim C2 asks that the listing has no line for a hidden entry. The guard of \<open>_tree\<close>
  looks at the name of the directory being listed, not at its entries: in a project
  holding a file \<open>.env\<close> and a directory \<open>.git\<close>, both get their line, and only what
  \<open>.git\<close> contains is left out.
\<close>

theorem tree_lists_hidden_entries:
  "get_project_tree
     (Dir [(''proj'', Dir [(''.env'', File []), (''.git'', Dir [(''HEAD'', File ''ref'')])])])
     \<lparr>project_path = [''proj'']\<rparr> 3 =
   Inr (join_lines [''proj/'', branch_mid @ ''.git/'', branch_last @ ''.env (0.0 B)''])"
  by (simp add: get_project_tree_def name_of_def hidden_def join_lines_def sort_items_def
        is_dir_def enumerate_eq_zip format_size_def value_of_def format_1f_def round_tenths_def
        digits.simps)

subsection \<open>Construction\<close>
















subsection \<open>Deleting nothing\<close>

text \<open>
  Claim C9. When the pattern matches nothing, and likewise when confirmation is asked
  for and the answer is not \<open>y\<close>, \<open>delete_files\<close> returns 0 and leaves the file system as
  it was.
\<close>

theorem delete_nothing:
  "(find_files fs self pattern None = Inr []
      \<longrightarrow> delete_files fs self pattern confirm response = (Inr 0, fs)) \<and>
   (find_files fs self pattern None = Inr files \<and> confirm \<and> lower response \<noteq> ''y''
      \<longrightarrow> delete_files fs self pattern confirm response = (Inr 0, fs))"
  by (simp add: delete_files_def)

theorem delete_nothing_witness:
  "find_files demo_fs demo_pm ''*.tmp'' None = Inr [] \<and>
   delete_files demo_fs demo_pm ''*.tmp'' False [] = (Inr 0, demo_fs) \<and>
   find_files demo_fs demo_pm ''*.py'' None = Inr [[''proj'', ''main.py'']] \<and>
   lower ''no'' \<noteq> ''y'' \<and>
   delete_files demo_fs demo_pm ''*.py'' True ''no'' = (Inr 0, demo_fs)"
proof -
  have a: "find_files demo_fs demo_pm ''*.tmp'' None = Inr []"
    by (simp add: demo_fs_def demo_pm_def find_eval)
  have b: "find_files demo_fs demo_pm ''*.py'' None = Inr [[''proj'', ''main.py'']]"
    by (simp add: demo_fs_def demo_pm_def find_eval)
  have c: "lower ''no'' \<noteq> ''y''" by (simp add: lower_def)
  from delete_nothing [of demo_fs demo_pm "''*.tmp''" False "[]" "[]"]
       delete_nothing [of demo_fs demo_pm "''*.py''" True "''no''" "[[''proj'', ''main.py'']]"] a b c
  show ?thesis by simp
qed

subsection \<open>A failing batch\<close>

lemma delete_loop_append:
  "delete_loop fs (xs @ ys) c =
     (case delete_loop fs xs c of
        (Inl e, fs') \<Rightarrow> (Inl e, fs')
      | (Inr k, fs') \<Rightarrow> delete_loop fs' ys k)"
  by (induction xs arbitrary: fs c) (auto split: sum.splits)

lemma delete_loop_count:
  "delete_loop fs xs c = (Inr k, fs') \<Longrightarrow> k = c + length xs"
  by (induction xs arbitrary: fs c) (fastforce split: sum.splits)+

lemma copy_loop_append:
  "copy_loop fs dest (xs @ ys) c =
     (case copy_loop fs dest xs c of
        (Inl e, fs') \<Rightarrow> (Inl e, fs')
      | (Inr k, fs') \<Rightarrow> copy_loop fs' dest ys k)"
  by (induction xs arbitrary: fs c) (auto split: sum.splits)

lemma copy_loop_count:
  "copy_loop fs dest xs c = (Inr k, fs') \<Longrightarrow> k = c + length xs"
  by (induction xs arbitrary: fs c) (fastforce split: sum.splits)+

text \<open>
  Claim C3, as the code has it. When the matched entries up to some point are processed
  and the next one fails, \<open>delete_files\<close> and \<open>copy_files\<close> stop there and leave with the
  error of that entry: no count is returned, the entries processed before stay deleted
  or copied, and the rest of the batch is not touched.
\<close>

theorem batch_aborts_with_error:
  "(find_files fs self pattern None = Inr (done @ bad # rest) \<and>
    (\<not> confirm \<or> lower response = ''y'') \<and>
    delete_loop fs done 0 = (Inr k, fs') \<and> unlink fs' bad = Inl e
      \<longrightarrow> delete_files fs self pattern confirm response = (Inl e, fs') \<and> k = length done) \<and>
   ((if create_dirs then mkdir_parents fs dest_path else Inr fs) = Inr fs1 \<and>
    find_files fs1 self pattern None = Inr (done @ bad # rest) \<and>
    copy_loop fs1 dest_path done 0 = (Inr k, fs') \<and> copy_one fs' dest_path bad = Inl e
      \<longrightarrow> copy_files fs self pattern dest_path create_dirs = (Inl e, fs') \<and> k = length done)"
proof -
  have del: "find_files fs self pattern None = Inr (done @ bad # rest) \<and>
    (\<not> confirm \<or> lower response = ''y'') \<and>
    delete_loop fs done 0 = (Inr k, fs') \<and> unlink fs' bad = Inl e
      \<longrightarrow> delete_files fs self pattern confirm response = (Inl e, fs') \<and> k = length done"
  proof (intro impI, elim conjE)
    assume f: "find_files fs self pattern None = Inr (done @ bad # rest)"
      and c: "\<not> confirm \<or> lower response = ''y''"
      and l: "delete_loop fs done 0 = (Inr k, fs')"
      and u: "unlink fs' bad = Inl e"
    have "delete_loop fs (done @ bad # rest) 0 = (Inl e, fs')"
      using l u by (simp add: delete_loop_append)
    then have "delete_files fs self pattern confirm response = (Inl e, fs')"
      using f c by (auto simp: delete_files_def)
    moreover have "k = length done" using delete_loop_count [OF l] by simp
    ultimately show "delete_files fs self pattern confirm response = (Inl e, fs') \<and> k = length done"
      by simp
  qed
  have cp: "(if create_dirs then mkdir_parents fs dest_path else Inr fs) = Inr fs1 \<and>
    find_files fs1 self pattern None = Inr (done @ bad # rest) \<and>
    copy_loop fs1 dest_path done 0 = (Inr k, fs') \<and> copy_one fs' dest_path bad = Inl e
      \<longrightarrow> copy_files fs self pattern dest_path create_dirs = (Inl e, fs') \<and> k = length done"
  proof (intro impI, elim conjE)
    assume m: "(if create_dirs then mkdir_parents fs dest_path else Inr fs) = Inr fs1"
      and f: "find_files fs1 self pattern None = Inr (done @ bad # rest)"
      and l: "copy_loop fs1 dest_path done 0 = (Inr k, fs')"
      and u: "copy_one fs' dest_path bad = Inl e"
    have "copy_loop fs1 dest_path (done @ bad # rest) 0 = (Inl e, fs')"
      using l u by (auto simp: copy_loop_append copy_one_def split: sum.splits)
    then have "copy_files fs self pattern dest_path create_dirs = (Inl e, fs')"
      using m f by (simp add: copy_files_def)
    moreover have "k = length done" using copy_loop_count [OF l] by simp
    ultimately show "copy_files fs self pattern dest_path create_dirs = (Inl e, fs') \<and> k = length done"
      by simp
  qed
  from del cp show ?thesis by blast
qed

theorem batch_aborts_with_error_witness:
  "find_files batch_fs batch_pm ''*.tmp'' None =
     Inr ([[''proj'', ''a.tmp'']] @ [''proj'', ''b.tmp''] # [[''proj'', ''c.tmp'']]) \<and>
   lower ''Y'' = ''y'' \<and>
   delete_loop batch_fs [[''proj'', ''a.tmp'']] 0 =
     (Inr 1, Dir [(''proj'', Dir [(''b.tmp'', Dir []), (''c.tmp'', File ''c'')])]) \<and>
   unlink (Dir [(''proj'', Dir [(''b.tmp'', Dir []), (''c.tmp'', File ''c'')])]) [''proj'', ''b.tmp''] =
     Inl IsADirectoryError \<and>
   delete_files batch_fs batch_pm ''*.tmp'' True ''Y'' =
     (Inl IsADirectoryError, Dir [(''proj'', Dir [(''b.tmp'', Dir []), (''c.tmp'', File ''c'')])]) \<and>
   copy_loop batch_fs [''proj'', ''b.tmp''] [[''proj'', ''a.tmp'']] 0 =
     (Inr 1, Dir [(''proj'', Dir [(''a.tmp'', File ''a''), (''b.tmp'', Dir [(''a.tmp'', File ''a'')]), (''c.tmp'', File ''c'')])]) \<and>
   copy_one (Dir [(''proj'', Dir [(''a.tmp'', File ''a''), (''b.tmp'', Dir [(''a.tmp'', File ''a'')]), (''c.tmp'', File ''c'')])])
      [''proj'', ''b.tmp''] [''proj'', ''b.tmp''] = Inl IsADirectoryError \<and>
   copy_files batch_fs batch_pm ''*.tmp'' [''proj'', ''b.tmp''] False =
     (Inl IsADirectoryError,
      Dir [(''proj'', Dir [(''a.tmp'', File ''a''), (''b.tmp'', Dir [(''a.tmp'', File ''a'')]), (''c.tmp'', File ''c'')])])"
proof -
  let ?fs' = "Dir [(''proj'', Dir [(''b.tmp'', Dir []), (''c.tmp'', File ''c'')])]"
  let ?fs2 = "Dir [(''proj'', Dir [(''a.tmp'', File ''a''), (''b.tmp'', Dir [(''a.tmp'', File ''a'')]), (''c.tmp'', File ''c'')])]"
  have f: "find_files batch_fs batch_pm ''*.tmp'' None =
     Inr ([[''proj'', ''a.tmp'']] @ [''proj'', ''b.tmp''] # [[''proj'', ''c.tmp'']])"
    by (simp add: batch_fs_def batch_pm_def find_eval)
  have y: "lower ''Y'' = ''y''" by (simp add: lower_def lower_char_def)
  have l: "delete_loop batch_fs [[''proj'', ''a.tmp'']] 0 = (Inr 1, ?fs')"
    by (simp add: batch_fs_def)
  have u: "unlink ?fs' [''proj'', ''b.tmp''] = Inl IsADirectoryError"
    by simp
  have cl: "copy_loop batch_fs [''proj'', ''b.tmp''] [[''proj'', ''a.tmp'']] 0 = (Inr 1, ?fs2)"
    by (simp add: batch_fs_def read_bytes_def name_of_def)
  have co: "copy_one ?fs2 [''proj'', ''b.tmp''] [''proj'', ''b.tmp''] = Inl IsADirectoryError"
    by (simp add: copy_one_def read_bytes_def)
  from batch_aborts_with_error [of batch_fs batch_pm "''*.tmp''" "[[''proj'', ''a.tmp'']]"
      "[''proj'', ''b.tmp'']" "[[''proj'', ''c.tmp'']]" True "''Y''" 1 ?fs' IsADirectoryError
      False "[''proj'', ''b.tmp'']" batch_fs]
  have d: "delete_files batch_fs batch_pm ''*.tmp'' True ''Y'' = (Inl IsADirectoryError, ?fs')"
    using f y l u by simp
  from batch_aborts_with_error [of batch_fs batch_pm "''*.tmp''" "[[''proj'', ''a.tmp'']]"
      "[''proj'', ''b.tmp'']" "[[''proj'', ''c.tmp'']]" True "''Y''" 1 ?fs2 IsADirectoryError
      False "[''proj'', ''b.tmp'']" batch_fs]
  have c: "copy_files batch_fs batch_pm ''*.tmp'' [''proj'', ''b.tmp''] False = (Inl IsADirectoryError, ?fs2)"
    using f cl co by simp
  from f y l u d cl co c show ?thesis by simp
qed

text \<open>
  Claim C3 as stated asks for the count of the files completed so far. Here the second
  of three matches is a directory: one file has been processed, and the outcome is the
  exception, not the count 1.
\<close>

theorem batch_returns_no_count:
  "delete_files batch_fs batch_pm ''*.tmp'' False [] =
     (Inl IsADirectoryError, Dir [(''proj'', Dir [(''b.tmp'', Dir []), (''c.tmp'', File ''c'')])]) \<and>
   copy_files batch_fs batch_pm ''*.tmp'' [''out''] True =
     (Inl IsADirectoryError,
      Dir [(''proj'', Dir [(''a.tmp'', File ''a''), (''b.tmp'', Dir []), (''c.tmp'', File ''c'')]),
           (''out'', Dir [(''a.tmp'', File ''a'')])])"
  by (simp add: batch_fs_def batch_pm_def delete_files_def copy_files_def find_eval read_bytes_def)

subsection \<open>Copying and scanning the destination\<close>

lemma update_new: "x \<notin> fst ` set cs \<Longrightarrow> AList.update x v cs = cs @ [(x, v)]"
  by (induction cs) auto

lemma write_bytes_listing:
  "lookup fs dest = Some (Dir cs) \<Longrightarrow> write_bytes fs (dest @ [x]) data = Inr fs' \<Longrightarrow>
   lookup fs' dest = Some (Dir (AList.update x (File data) cs))"
proof (induction dest arbitrary: fs fs')
  case Nil
  then show ?case by (auto split: option.splits node.splits)
next
  case (Cons d dest)
  from Cons.prems(1) obtain ds where fs: "fs = Dir ds" by (cases fs) auto
  from Cons.prems(1) fs obtain c where c: "map_of ds d = Some c" "lookup c dest = Some (Dir cs)"
    by (auto split: option.splits)
  obtain y p where yp: "dest @ [x] = y # p" by (cases dest) auto
  from Cons.prems(2) fs c yp obtain c' where
    c': "write_bytes c (dest @ [x]) data = Inr c'" "fs' = Dir (AList.update d c' ds)"
    by (auto split: sum.splits)
  have "lookup c' dest = Some (Dir (AList.update x (File data) cs))"
    using Cons.IH [OF c(2) c'(1)] .
  then show ?case using c' by (simp add: update_conv')
qed

lemma copy_loop_listing:
  "copy_loop fs dest files c = (Inr n, fs') \<Longrightarrow> lookup fs dest = Some (Dir cs) \<Longrightarrow>
   distinct (map name_of files) \<Longrightarrow> set (map name_of files) \<inter> fst ` set cs = {} \<Longrightarrow>
   \<forall>e \<in> set cs. is_file (snd e) \<Longrightarrow>
   \<exists>cs'. lookup fs' dest = Some (Dir cs') \<and> map fst cs' = map fst cs @ map name_of files \<and>
         (\<forall>e \<in> set cs'. is_file (snd e))"
proof (induction files arbitrary: fs c cs)
  case Nil
  then show ?case by simp
next
  case (Cons f files)
  from Cons.prems(1) obtain data fs2 where
    step: "read_bytes fs f = Inr data" "write_bytes fs (dest @ [name_of f]) data = Inr fs2"
      "copy_loop fs2 dest files (c + 1) = (Inr n, fs')"
    by (auto split: sum.splits)
  have new: "name_of f \<notin> fst ` set cs" using Cons.prems(4) by auto
  have l2: "lookup fs2 dest = Some (Dir (cs @ [(name_of f, File data)]))"
    using write_bytes_listing [OF Cons.prems(2) step(2)] new by (simp add: update_new)
  have d2: "distinct (map name_of files)" using Cons.prems(3) by simp
  have i2: "set (map name_of files) \<inter> fst ` set (cs @ [(name_of f, File data)]) = {}"
    using Cons.prems(3,4) by auto
  have f2: "\<forall>e \<in> set (cs @ [(name_of f, File data)]). is_file (snd e)"
    using Cons.prems(5) by (simp add: is_file_def)
  from Cons.IH [OF step(3) l2 d2 i2 f2] show ?case by simp
qed

lemma rglob_flat:
  "\<forall>e \<in> set cs. is_file (snd e) \<Longrightarrow> rglob (Dir cs) = map (\<lambda>e. ([fst e], snd e)) cs"
proof -
  assume a: "\<forall>e \<in> set cs. is_file (snd e)"
  have "\<And>e. e \<in> set cs \<Longrightarrow> rglob (snd e) = []"
  proof -
    fix e assume "e \<in> set cs"
    then have "is_file (snd e)" using a by simp
    then show "rglob (snd e) = []" by (cases "snd e") (simp_all add: is_file_def)
  qed
  then have "concat (map (\<lambda>e. map (\<lambda>r. (fst e # fst r, snd r)) (rglob (snd e))) cs) = []"
    by simp
  then show ?thesis by simp
qed

lemma scan_flat:
  assumes "lookup fs dest = Some (Dir cs)" and "\<forall>e \<in> set cs. is_file (snd e)" and "1 \<le> limit"
  shows "total_files (scan_project fs \<lparr>project_path = dest\<rparr> limit) =
           length (filter (\<lambda>x. \<not> hidden x) (map fst cs))"
proof -
  have "rglob (Dir cs) = map (\<lambda>e. ([fst e], snd e)) cs"
    using assms(2) by (rule rglob_flat)
  then have "project_rglob fs \<lparr>project_path = dest\<rparr> = map (\<lambda>e. ([fst e], snd e)) cs"
    using assms(1) by (simp add: project_rglob_def del: rglob.simps)
  then have "total_files (scan_project fs \<lparr>project_path = dest\<rparr> limit) =
      length (filter (\<lambda>e. visited limit (fst e) \<and> is_file (snd e)) (map (\<lambda>e. ([fst e], snd e)) cs))"
    by (simp add: scan_project_def scan_total_files stats0_def)
  also have "\<dots> = length (filter (\<lambda>e. \<not> hidden (fst e)) cs)"
    using assms(2,3) by (simp add: filter_map comp_def visited_def cong: filter_cong)
  also have "\<dots> = length (filter (\<lambda>x. \<not> hidden x) (map fst cs))"
    by (simp add: filter_map comp_def)
  finally show ?thesis .
qed

text \<open>
  Claim C4, as the code has it. If the destination directory is empty when the copying
  starts, the matched entries have pairwise different base names, none of them hidden,
  and \<open>copy_files\<close> completes, then it returns the number of matches, a scan of the
  destination (to depth 1 or more) counts as many files, and the destination lists
  exactly the base names of the matches, each a regular file directly in it.
\<close>

theorem copy_then_rescan:
  "(if create_dirs then mkdir_parents fs dest_path else Inr fs) = Inr fs1 \<and>
   lookup fs1 dest_path = Some (Dir []) \<and>
   find_files fs1 self pattern None = Inr files \<and>
   distinct (map name_of files) \<and> (\<forall>f \<in> set files. \<not> hidden (name_of f)) \<and>
   copy_files fs self pattern dest_path create_dirs = (Inr n, fs') \<and> 1 \<le> limit
   \<longrightarrow> n = length files \<and>
       total_files (scan_project fs' \<lparr>project_path = dest_path\<rparr> limit) = length files \<and>
       (\<exists>cs'. lookup fs' dest_path = Some (Dir cs') \<and> map fst cs' = map name_of files \<and>
              (\<forall>e \<in> set cs'. is_file (snd e)))"
proof (intro impI, elim conjE)
  assume m: "(if create_dirs then mkdir_parents fs dest_path else Inr fs) = Inr fs1"
    and e: "lookup fs1 dest_path = Some (Dir [])"
    and f: "find_files fs1 self pattern None = Inr files"
    and d: "distinct (map name_of files)"
    and h: "\<forall>f \<in> set files. \<not> hidden (name_of f)"
    and c: "copy_files fs self pattern dest_path create_dirs = (Inr n, fs')"
    and l: "1 \<le> limit"
  have loop: "copy_loop fs1 dest_path files 0 = (Inr n, fs')"
    using c m f by (simp add: copy_files_def)
  have n: "n = length files" using copy_loop_count [OF loop] by simp
  obtain cs' where cs': "lookup fs' dest_path = Some (Dir cs')" "map fst cs' = map name_of files"
    "\<forall>e \<in> set cs'. is_file (snd e)"
    using copy_loop_listing [OF loop e d] by auto
  have "filter (\<lambda>x. \<not> hidden x) (map name_of files) = map name_of files"
    using h by (simp add: filter_id_conv)
  then have "total_files (scan_project fs' \<lparr>project_path = dest_path\<rparr> limit) = length files"
    using scan_flat [OF cs'(1) cs'(3) l] cs'(2) by simp
  with n cs' show "n = length files \<and>
       total_files (scan_project fs' \<lparr>project_path = dest_path\<rparr> limit) = length files \<and>
       (\<exists>cs'. lookup fs' dest_path = Some (Dir cs') \<and> map fst cs' = map name_of files \<and>
              (\<forall>e \<in> set cs'. is_file (snd e)))" by blast
qed

theorem copy_then_rescan_witness:
  "mkdir_parents copy_fs [''out''] = Inr copy_fs1 \<and>
   lookup copy_fs1 [''out''] = Some (Dir []) \<and>
   find_files copy_fs1 clash_pm ''*.py'' None = Inr [[''proj'', ''m.py''], [''proj'', ''pkg'', ''n.py'']] \<and>
   distinct (map name_of [[''proj'', ''m.py''], [''proj'', ''pkg'', ''n.py'']]) \<and>
   \<not> hidden (name_of [''proj'', ''m.py'']) \<and> \<not> hidden (name_of [''proj'', ''pkg'', ''n.py'']) \<and>
   copy_files copy_fs clash_pm ''*.py'' [''out''] True = (Inr 2, copy_fs2) \<and>
   total_files (scan_project copy_fs2 \<lparr>project_path = [''out'']\<rparr> 20) = 2"
proof -
  have m: "mkdir_parents copy_fs [''out''] = Inr copy_fs1"
    by (simp add: copy_fs_def copy_fs1_def)
  have e: "lookup copy_fs1 [''out''] = Some (Dir [])"
    by (simp add: copy_fs1_def)
  have f: "find_files copy_fs1 clash_pm ''*.py'' None = Inr [[''proj'', ''m.py''], [''proj'', ''pkg'', ''n.py'']]"
    by (simp add: copy_fs1_def clash_pm_def find_eval)
  have d: "distinct (map name_of [[''proj'', ''m.py''], [''proj'', ''pkg'', ''n.py'']])"
    by (simp add: name_of_def)
  have h: "\<not> hidden (name_of [''proj'', ''m.py'']) \<and> \<not> hidden (name_of [''proj'', ''pkg'', ''n.py''])"
    by (simp add: name_of_def hidden_def)
  have c: "copy_files copy_fs clash_pm ''*.py'' [''out''] True = (Inr 2, copy_fs2)"
    by (simp add: copy_fs_def copy_fs2_def clash_pm_def copy_files_def find_eval read_bytes_def)
  from copy_then_rescan [of True copy_fs "[''out'']" copy_fs1 clash_pm "''*.py''"
      "[[''proj'', ''m.py''], [''proj'', ''pkg'', ''n.py'']]" 2 copy_fs2 20] m e f d h c
  show ?thesis by simp
qed

text \<open>
  Claim C4 as stated speaks of every pattern and every destination. Two matches of one base
  name are copied onto each other: two files are reported as copied and the destination
  holds one. A hidden match is copied and not counted by the scan, and a file that was
  in the destination before is counted without being a match.
\<close>

theorem copy_rescan_mismatch:
  "find_files clash_fs clash_pm ''*.py'' None = Inr [[''proj'', ''m.py''], [''proj'', ''pkg'', ''m.py'']] \<and>
   fst (copy_files clash_fs clash_pm ''*.py'' [''out''] True) = Inr 2 \<and>
   total_files (scan_project (snd (copy_files clash_fs clash_pm ''*.py'' [''out''] True))
                  \<lparr>project_path = [''out'']\<rparr> 20) = 1 \<and>
   fst (copy_files (Dir [(''proj'', Dir [(''.env'', File ''k'')])]) clash_pm ''*'' [''out''] True) = Inr 1 \<and>
   total_files (scan_project (snd (copy_files (Dir [(''proj'', Dir [(''.env'', File ''k'')])]) clash_pm ''*'' [''out''] True))
                  \<lparr>project_path = [''out'']\<rparr> 20) = 0 \<and>
   fst (copy_files (Dir [(''proj'', Dir [(''a.py'', File ''a'')]), (''out'', Dir [(''old.txt'', File ''o'')])])
          clash_pm ''*.py'' [''out''] True) = Inr 1 \<and>
   total_files (scan_project (snd (copy_files (Dir [(''proj'', Dir [(''a.py'', File ''a'')]), (''out'', Dir [(''old.txt'', File ''o'')])])
          clash_pm ''*.py'' [''out''] True)) \<lparr>project_path = [''out'']\<rparr> 20) = 2"
proof -
  have a: "find_files clash_fs clash_pm ''*.py'' None = Inr [[''proj'', ''m.py''], [''proj'', ''pkg'', ''m.py'']]"
    by (simp add: clash_fs_def clash_pm_def find_eval)
  have b: "copy_files clash_fs clash_pm ''*.py'' [''out''] True =
     (Inr 2, Dir [(''proj'', Dir [(''m.py'', File ''top''), (''pkg'', Dir [(''m.py'', File ''inner'')])]),
                  (''out'', Dir [(''m.py'', File ''inner'')])])"
    by (simp add: clash_fs_def clash_pm_def copy_files_def find_eval read_bytes_def)
  have c: "total_files (scan_project (Dir [(''proj'', Dir [(''m.py'', File ''top''), (''pkg'', Dir [(''m.py'', File ''inner'')])]),
                  (''out'', Dir [(''m.py'', File ''inner'')])])
                  \<lparr>project_path = [''out'']\<rparr> 20) = 1"
    by (simp add: scan_eval)
  have b2: "copy_files (Dir [(''proj'', Dir [(''.env'', File ''k'')])]) clash_pm ''*'' [''out''] True =
     (Inr 1, Dir [(''proj'', Dir [(''.env'', File ''k'')]), (''out'', Dir [(''.env'', File ''k'')])])"
    by (simp add: clash_pm_def copy_files_def find_eval read_bytes_def)
  have c2: "total_files (scan_project (Dir [(''proj'', Dir [(''.env'', File ''k'')]), (''out'', Dir [(''.env'', File ''k'')])])
                  \<lparr>project_path = [''out'']\<rparr> 20) = 0"
    by (simp add: scan_eval)
  have b3: "copy_files (Dir [(''proj'', Dir [(''a.py'', File ''a'')]), (''out'', Dir [(''old.txt'', File ''o'')])])
          clash_pm ''*.py'' [''out''] True =
     (Inr 1, Dir [(''proj'', Dir [(''a.py'', File ''a'')]), (''out'', Dir [(''old.txt'', File ''o''), (''a.py'', File ''a'')])])"
    by (simp add: clash_pm_def copy_files_def find_eval read_bytes_def)
  have c3: "total_files (scan_project (Dir [(''proj'', Dir [(''a.py'', File ''a'')]), (''out'', Dir [(''old.txt'', File ''o''), (''a.py'', File ''a'')])])
                  \<lparr>project_path = [''out'']\<rparr> 20) = 2"
    by (simp add: scan_eval)
  from a b c b2 c2 b3 c3 show ?thesis by simp
qed

end
